theory Spec2Isabelle
  imports Complex_Main "HOL-Library.Multiset" "HOL-Library.Log_Nat"
begin

section \<open>DENTIST (src/dentist.cpp): a shallow embedding\<close>

text \<open>
  Conventions of the embedding.
  \<^item> A \<open>double\<close> or \<open>float\<close> is a \<open>real\<close>. Arithmetic on them is exact, except where a
    floating-point product is converted to an integer (lines 67 and 91): the integer
    depends on how the product is rounded, so there the product is rounded to the nearest
    \<open>double\<close> or \<open>float\<close>, ties to even, as the hardware does. The IEEE special values
    (NaN, infinities) are outside the model.
  \<^item> A \<open>std::vector\<close> and an \<open>arma::vec\<close> are lists; an index (\<open>uint\<close>, \<open>size_t\<close>) is a
    \<open>nat\<close>, and every conversion between integer types that can change a value is written
    out with its modulus.
  \<^item> A call that throws (\<open>Rcpp::stop\<close>, \<open>std::vector::at\<close>, a bounds-checked Armadillo
    access) or reads or writes outside a container returns \<open>Inl\<close> of a \<open>failure\<close>; a loop
    that does not come back is the failure \<open>No_return\<close>. An exception thrown inside an
    OpenMP parallel region cannot leave the region: the run-time system ends the process
    (\<open>std::terminate\<close>), and no error reaches the caller.
\<close>

datatype failure =
    Rank_stop          \<comment> \<open>\<open>Rcpp::stop("Rank of eigen matrix <= 1")\<close>, line 123\<close>
  | Terminated         \<comment> \<open>the process is ended: \<open>Rcpp::stop("Dividing zero: Rsq = ...")\<close>
                           of line 144 is thrown inside the parallel region of line 139\<close>
  | Out_of_range       \<comment> \<open>an access outside a container\<close>
  | Length_error       \<comment> \<open>a \<open>std::vector\<close> constructed with more than \<open>max_size()\<close> elements\<close>
  | Non_conformant     \<comment> \<open>Armadillo: operands of incompatible dimensions\<close>
  | No_return          \<comment> \<open>the call never returns\<close>

subsection \<open>Rounding to a floating-point format\<close>

text \<open>
  Rounding of a real to the nearest integer, a tie going to the even one.
\<close>

definition round_even :: "real \<Rightarrow> int" where
  "round_even x =
     (let f = \<lfloor>x\<rfloor>; d = x - of_int f
      in if d < 1 / 2 then f else if 1 / 2 < d then f + 1 else if even f then f else f + 1)"

text \<open>
  The exponent \<open>e\<close> of the binade \<open>2 ^ e \<le> |x| < 2 ^ (e + 1)\<close> that holds \<open>x\<close>, not below
  the least exponent \<open>emin\<close> of the format (below it the numbers are subnormal and share
  the spacing of \<open>emin\<close>).
\<close>

definition binade :: "int \<Rightarrow> real \<Rightarrow> int" where
  "binade emin x = max emin (emin - 1 + bitlen \<lfloor>\<bar>x\<bar> * 2 powi (- emin)\<rfloor>)"

text \<open>
  Rounding to the nearest number with a significand of \<open>p\<close> bits: the multiples of
  \<open>2 ^ (e - p + 1)\<close> in the binade of \<open>x\<close>. Overflow to infinity is outside the model:
  the exponent has no upper limit here, and the properties below are about products far
  below \<open>2 ^ 128\<close> (\<open>float\<close>) and \<open>2 ^ 1024\<close> (\<open>double\<close>).
\<close>

definition fl :: "nat \<Rightarrow> int \<Rightarrow> real \<Rightarrow> real" where
  "fl p emin x =
     (let u = 2 powi (binade emin x - int p + 1) in of_int (round_even (x / u)) * u)"

definition fl32 :: "real \<Rightarrow> real" where
  "fl32 = fl 24 (- 126)"

definition fl64 :: "real \<Rightarrow> real" where
  "fl64 = fl 53 (- 1022)"

text \<open>The reals that a \<open>double\<close> can hold.\<close>

definition is_double :: "real \<Rightarrow> bool" where
  "is_double x \<longleftrightarrow> fl64 x = x"

text \<open>The conversion of a floating-point value to an integer type truncates towards zero.\<close>

definition trunc_real :: "real \<Rightarrow> int" where
  "trunc_real x = (if 0 \<le> x then \<lfloor>x\<rfloor> else \<lceil>x\<rceil>)"

subsection \<open>Quantiles\<close>

text \<open>
  The conversion of the \<open>double\<close> value \<open>ceil(...) - 1\<close> to \<open>size_t\<close>: the value is integral,
  and a negative one wraps modulo \<open>2 ^ 64\<close> (what x86-64 compilers emit; the C++ standard
  leaves it undefined).
\<close>

definition size_t_of_int :: "int \<Rightarrow> nat" where
  "size_t_of_int k = nat (k mod 2 ^ 64)"

text \<open>
  Line 67, \<open>size_t pos = ceil(sortedData.size() * whichQuantile) - 1\<close>: the size is
  converted to \<open>double\<close>, the product and the difference are \<open>double\<close> operations, and the
  result is converted to \<open>size_t\<close>.
\<close>

definition quantile_pos :: "nat \<Rightarrow> real \<Rightarrow> nat" where
  "quantile_pos n whichQuantile =
     size_t_of_int (trunc_real (fl64 (of_int \<lceil>fl64 (fl64 (real n) * whichQuantile)\<rceil> - 1)))"

text \<open>\<open>getQuantile\<close>: the copy is sorted, and \<open>sortedData.at(pos)\<close> throws out of range.\<close>

definition getQuantile :: "real list \<Rightarrow> real \<Rightarrow> failure + real" where
  "getQuantile dat whichQuantile =
     (let sortedData = sort dat;
          pos = quantile_pos (length sortedData) whichQuantile
      in if pos < length sortedData then Inr (sortedData ! pos) else Inl Out_of_range)"

text \<open>
  \<open>getQuantile2\<close>: the loop reads \<open>grouping[i]\<close> for every \<open>i < dat.size()\<close>, which is
  outside \<open>grouping\<close> when that vector is the shorter one.
\<close>

definition getQuantile2 :: "real list \<Rightarrow> nat list \<Rightarrow> real \<Rightarrow> failure + real" where
  "getQuantile2 dat grouping whichQuantile =
     (if length grouping < length dat then Inl Out_of_range
      else
        let filteredData = map (\<lambda>i. dat ! i) (filter (\<lambda>i. grouping ! i = 1) [0..<length dat])
        in if length filteredData < 50 then Inr 0 else getQuantile filteredData whichQuantile)"

subsection \<open>The random order\<close>

text \<open>
  \<open>std::mt19937\<close> and \<open>std::uniform_int_distribution\<close> belong to the standard library. The
  model takes what they produce as a parameter: \<open>ds k\<close> is the value of the \<open>k\<close>-th call
  \<open>dist(rng)\<close> after \<open>rng\<close> was seeded.

  The \<open>do ... while (tempNum == -1)\<close> loop draws until the value differs from all of
  \<open>numbers[0 .. index)\<close> (and from the marker \<open>-1\<close>). It has no bound, so it is a partial
  function: \<open>None\<close> is the loop that never ends.
\<close>

partial_function (option) draw_unique :: "(nat \<Rightarrow> int) \<Rightarrow> int list \<Rightarrow> nat \<Rightarrow> (int \<times> nat) option" where
  "draw_unique ds numbers k =
     (let tempNum = ds k
      in if list_ex (\<lambda>x. tempNum = x) numbers \<or> tempNum = - 1
         then draw_unique ds numbers (Suc k)
         else Some (tempNum, Suc k))"

declare draw_unique.simps [code]

text \<open>The \<open>for\<close> loop over \<open>index\<close>, with \<open>n\<close> entries still to fill.\<close>

fun fill_numbers :: "(nat \<Rightarrow> int) \<Rightarrow> nat \<Rightarrow> int list \<Rightarrow> nat \<Rightarrow> int list option" where
  "fill_numbers ds 0 numbers k = Some numbers"
| "fill_numbers ds (Suc n) numbers k =
     (case draw_unique ds numbers k of
        None \<Rightarrow> None
      | Some (tempNum, k') \<Rightarrow> fill_numbers ds n (numbers @ [tempNum]) k')"

text \<open>
  \<open>sort_indexes\<close>: the indices \<open>0 .. theSize - 1\<close> ordered by the value they point at.
  \<open>std::sort\<close> leaves the order of equal keys open; \<open>sort_key\<close> fixes one such order
  (the keys are distinct where \<open>generateSetOfNumbers\<close> calls it).
\<close>

definition sort_indexes :: "int list \<Rightarrow> nat \<Rightarrow> nat list" where
  "sort_indexes v theSize = sort_key (\<lambda>i. v ! i) [0..<theSize]"

text \<open>
  \<open>generateSetOfNumbers\<close>. A negative \<open>SIZE\<close> becomes a \<open>size_t\<close> above \<open>max_size()\<close> and
  the constructor of \<open>numbers\<close> throws; with \<open>SIZE = 0\<close> the vector is empty and the
  unguarded \<open>numbers[0] = dist(rng)\<close> writes outside it.
\<close>

definition generateSetOfNumbers :: "(int \<Rightarrow> nat \<Rightarrow> int) \<Rightarrow> int \<Rightarrow> int \<Rightarrow> failure + nat list" where
  "generateSetOfNumbers draws SIZE seed =
     (if SIZE < 0 then Inl Length_error
      else if SIZE = 0 then Inl Out_of_range
      else
       (case fill_numbers (draws seed) (nat SIZE - 1) [draws seed 0] 1 of
          None \<Rightarrow> Inl No_return
        | Some numbers \<Rightarrow> Inr (sort_indexes numbers (nat SIZE))))"

text \<open>
  What the retry loop needs from the generator to come back while fewer than \<open>n\<close> values
  are kept: after any position there is a draw other than \<open>-1\<close> outside any given set of
  fewer than \<open>n\<close> values.
\<close>

definition fresh_supply :: "(nat \<Rightarrow> int) \<Rightarrow> nat \<Rightarrow> bool" where
  "fresh_supply ds n \<longleftrightarrow>
     (\<forall>F k. finite F \<and> card F < n \<longrightarrow> (\<exists>j\<ge>k. ds j \<notin> F \<and> ds j \<noteq> - 1))"

subsection \<open>Matrices\<close>

text \<open>
  An \<open>arma::mat\<close>: its dimensions and its entries. \<open>A(i, j)\<close> is bounds-checked by
  Armadillo; \<open>v[i]\<close> on a vector is not, and reading or writing outside is a failure of the
  model.
\<close>

record mat =
  n_rows :: nat
  n_cols :: nat
  elem :: "nat \<Rightarrow> nat \<Rightarrow> real"

definition mat_at :: "mat \<Rightarrow> nat \<Rightarrow> nat \<Rightarrow> failure + real" where
  "mat_at A i j = (if i < n_rows A \<and> j < n_cols A then Inr (elem A i j) else Inl Out_of_range)"

definition mat_mul :: "mat \<Rightarrow> mat \<Rightarrow> mat" where
  "mat_mul A B =
     \<lparr>n_rows = n_rows A, n_cols = n_cols B,
      elem = (\<lambda>i j. \<Sum>k<n_cols A. elem A i k * elem B k j)\<rparr>"

definition mat_t :: "mat \<Rightarrow> mat" where
  "mat_t A = \<lparr>n_rows = n_cols A, n_cols = n_rows A, elem = (\<lambda>i j. elem A j i)\<rparr>"

definition mat_vec :: "mat \<Rightarrow> real list \<Rightarrow> real list" where
  "mat_vec A v = map (\<lambda>i. \<Sum>k<n_cols A. elem A i k * v ! k) [0..<n_rows A]"

definition mat_diag :: "mat \<Rightarrow> real list" where
  "mat_diag A = map (\<lambda>i. elem A i i) [0..<min (n_rows A) (n_cols A)]"

subsection \<open>One imputation: \<open>oneIteration\<close>\<close>

text \<open>Conversions between the integer types of the source.\<close>

definition uint_of_int :: "int \<Rightarrow> nat" where
  "uint_of_int k = nat (k mod 2 ^ 32)"

definition int_of_nat :: "nat \<Rightarrow> int" where
  "int_of_nat n = (int n + 2 ^ 31) mod 2 ^ 32 - 2 ^ 31"

text \<open>
  Line 91: \<open>uint K = std::min(static_cast<uint>(idx.size()), nSample) * probSVD\<close>. The
  minimum is converted to \<open>float\<close>, the product is a \<open>float\<close> operation, and its result is
  truncated towards zero when stored in \<open>K\<close>; a result outside the range of \<open>uint\<close> wraps
  modulo \<open>2 ^ 32\<close> (what x86-64 compilers emit; the C++ standard leaves it undefined).
\<close>

definition initial_rank :: "nat \<Rightarrow> nat \<Rightarrow> real \<Rightarrow> nat" where
  "initial_rank idx_size nSample probSVD =
     uint_of_int (trunc_real (fl32 (fl32 (real (min (idx_size mod 2 ^ 32) nSample)) * probSVD)))"

text \<open>
  Lines 118 to 121: the cap at the number of eigenvalues not below \<open>0.0001\<close>. The literal
  is the \<open>double\<close> next above \<open>1 / 10000\<close>; no \<open>double\<close> lies between the two, so on the
  eigenvalues that the solver can return the test is the test against \<open>1 / 10000\<close>.
\<close>

definition effective_rank :: "real list \<Rightarrow> mat \<Rightarrow> int" where
  "effective_rank eigval eigvec =
     int_of_nat (n_rows eigvec) - int_of_nat (length (filter (\<lambda>x. x < 1 / 10000) eigval))"

definition truncation_rank :: "nat \<Rightarrow> nat \<Rightarrow> real \<Rightarrow> real list \<Rightarrow> mat \<Rightarrow> nat" where
  "truncation_rank idx_size nSample probSVD eigval eigvec =
     min (initial_rank idx_size nSample probSVD) (uint_of_int (effective_rank eigval eigvec))"

text \<open>The two gather loops (lines 99 to 111).\<close>

definition gather :: "mat \<Rightarrow> nat list \<Rightarrow> nat list \<Rightarrow> failure + mat" where
  "gather LDmat rows cols =
     (if list_all (\<lambda>i. list_all (\<lambda>k. i < n_rows LDmat \<and> k < n_cols LDmat) cols) rows
      then Inr \<lparr>n_rows = length rows, n_cols = length cols,
                elem = (\<lambda>i k. elem LDmat (rows ! i) (cols ! k))\<rparr>
      else Inl Out_of_range)"

definition gather_vec :: "real list \<Rightarrow> nat list \<Rightarrow> failure + real list" where
  "gather_vec zScore idx =
     (if list_all (\<lambda>i. i < length zScore) idx then Inr (map (\<lambda>i. zScore ! i) idx)
      else Inl Out_of_range)"

text \<open>
  Lines 126 to 132: column \<open>m\<close> of \<open>ui\<close> is column \<open>j = n_rows - m - 1\<close> of \<open>eigvec\<close>, and
  \<open>wi\<close> is diagonal with \<open>1 / eigval(j)\<close>. Both \<open>eigvec.col(j)\<close> and \<open>eigval(j)\<close> are
  bounds-checked.
\<close>

definition top_index :: "mat \<Rightarrow> nat \<Rightarrow> int" where
  "top_index eigvec m = int (n_rows eigvec) - int m - 1"

definition select_top :: "real list \<Rightarrow> mat \<Rightarrow> nat \<Rightarrow> failure + (mat \<times> mat)" where
  "select_top eigval eigvec K =
     (if list_all (\<lambda>m. 0 \<le> top_index eigvec m
                      \<and> nat (top_index eigvec m) < n_cols eigvec
                      \<and> nat (top_index eigvec m) < length eigval) [0..<K]
      then Inr (\<lparr>n_rows = n_rows eigvec, n_cols = K,
                 elem = (\<lambda>k m. elem eigvec k (nat (top_index eigvec m)))\<rparr>,
                \<lparr>n_rows = K, n_cols = K,
                 elem = (\<lambda>a b. if a = b then 1 / eigval ! nat (top_index eigvec a) else 0)\<rparr>)
      else Inl Out_of_range)"

text \<open>
  Lines 89 to 137, everything before the results are stored: the imputed statistics and
  the R squared of the target markers, in the order of \<open>idx2\<close>. The symmetric eigensolver
  \<open>arma::eig_sym\<close> is a parameter.
\<close>

definition impute ::
  "(mat \<Rightarrow> real list \<times> mat) \<Rightarrow> mat \<Rightarrow> nat list \<Rightarrow> nat list \<Rightarrow> real list \<Rightarrow> nat \<Rightarrow> real
     \<Rightarrow> failure + (real list \<times> real list)" where
  "impute eig_sym LDmat idx idx2 zScore nSample probSVD =
     (case gather LDmat idx2 idx of Inl e \<Rightarrow> Inl e | Inr LD_it \<Rightarrow>
     (case gather_vec zScore idx of Inl e \<Rightarrow> Inl e | Inr zScore_eigen \<Rightarrow>
     (case gather LDmat idx idx of Inl e \<Rightarrow> Inl e | Inr VV \<Rightarrow>
     (case eig_sym VV of (eigval, eigvec) \<Rightarrow>
      let K = truncation_rank (length idx) nSample probSVD eigval eigvec
      in if K \<le> 1 then Inl Rank_stop
         else
          (case select_top eigval eigvec K of Inl e \<Rightarrow> Inl e | Inr (ui, wi) \<Rightarrow>
           if n_cols LD_it \<noteq> n_rows ui then Inl Non_conformant
           else
             let beta = mat_mul (mat_mul LD_it ui) wi;
                 zScore_eigen_imp = mat_vec beta (mat_vec (mat_t ui) zScore_eigen);
                 rsq_eigen = mat_diag (mat_mul beta (mat_mul (mat_t ui) (mat_t LD_it)))
             in Inr (zScore_eigen_imp, rsq_eigen))))))"

text \<open>The three result vectors that \<open>oneIteration\<close> updates in place.\<close>

record outputs =
  imputedZ :: "real list"
  rsq :: "real list"
  zScore_e :: "real list"

text \<open>
  Lines 140 to 148, one marker after the other: \<open>i\<close> is the position in \<open>idx2\<close> of the
  head of the remaining targets. The loop is the body of \<open>#pragma omp parallel for\<close>
  (line 139), so the \<open>Rcpp::stop\<close> of line 144 ends the process. Line 147 divides by
  \<open>std::sqrt(LDmat(j, j) - rsqList[j])\<close>: the model is exact for a positive difference,
  where the code stores a NaN or an infinity the model stores what HOL's \<open>sqrt\<close> and
  division give, and no property below is stated of such an entry.
\<close>

fun scatter ::
  "mat \<Rightarrow> real list \<Rightarrow> real list \<Rightarrow> real list \<Rightarrow> nat list \<Rightarrow> nat \<Rightarrow> outputs \<Rightarrow> failure + outputs" where
  "scatter LDmat zScore zScore_eigen_imp rsq_eigen [] i s = Inr s"
| "scatter LDmat zScore zScore_eigen_imp rsq_eigen (j # js) i s =
     (if \<not> (j < length (imputedZ s) \<and> j < length (rsq s)) then Inl Out_of_range
      else
        let s1 = s\<lparr>imputedZ := (imputedZ s)[j := zScore_eigen_imp ! i],
                   rsq := (rsq s)[j := rsq_eigen ! i]\<rparr>
        in if rsq_eigen ! i \<ge> 1 then Inl Terminated
           else if \<not> (j < length (zScore_e s1) \<and> j < length zScore) then Inl Out_of_range
           else
            (case mat_at LDmat j j of Inl e \<Rightarrow> Inl e | Inr v \<Rightarrow>
               scatter LDmat zScore zScore_eigen_imp rsq_eigen js (Suc i)
                 (s1\<lparr>zScore_e := (zScore_e s1)
                        [j := (zScore ! j - imputedZ s1 ! j) / sqrt (v - rsq s1 ! j)]\<rparr>)))"

definition oneIteration ::
  "(mat \<Rightarrow> real list \<times> mat) \<Rightarrow> mat \<Rightarrow> nat list \<Rightarrow> nat list \<Rightarrow> real list \<Rightarrow> outputs \<Rightarrow> nat \<Rightarrow> real
     \<Rightarrow> failure + outputs" where
  "oneIteration eig_sym LDmat idx idx2 zScore s nSample probSVD =
     (case impute eig_sym LDmat idx idx2 zScore nSample probSVD of
        Inl e \<Rightarrow> Inl e
      | Inr (zScore_eigen_imp, rsq_eigen) \<Rightarrow>
          scatter LDmat zScore zScore_eigen_imp rsq_eigen idx2 0 s)"

subsection \<open>The rounds of \<open>dentist\<close>\<close>

text \<open>
  What \<open>dentist\<close> uses and the file does not define: the generator behind
  \<open>generateSetOfNumbers\<close>, Armadillo's \<open>eig_sym\<close> and \<open>chi2cdf\<close>, the collection \<open>chisq\<close>
  read by the genomic-control branch (no declaration of it is in scope), and the operator
  \<open>!\<close> applied to a \<open>std::vector<uint>\<close> at line 234 (the standard library has none).
\<close>

record env =
  draws :: "int \<Rightarrow> nat \<Rightarrow> int"
  eig_sym :: "mat \<Rightarrow> real list \<times> mat"
  chi2cdf :: "real \<Rightarrow> real \<Rightarrow> real"
  chisq :: "real list"
  vec_not :: "nat list \<Rightarrow> nat list"

text \<open>
  The parameters of \<open>dentist\<close>; \<open>propSVD\<close> is the \<open>float\<close> that the function receives.
\<close>

record args =
  LDmat :: mat
  markerSize :: nat
  nSample :: nat
  zScore :: "real list"
  pValueThreshold :: real
  propSVD :: real
  gcControl :: bool
  nIter :: int
  groupingPvalue_thresh :: real
  ncpus :: int
  seed :: int

text \<open>The variables that live across the rounds.\<close>

record dentist_state =
  idx :: "nat list"
  idx2 :: "nat list"
  fullIdx :: "nat list"
  res :: outputs
  iterID :: "int list"

definition minusLogPvalueChisq2 :: "(real \<Rightarrow> real \<Rightarrow> real) \<Rightarrow> real \<Rightarrow> real" where
  "minusLogPvalueChisq2 cdf stat = - log 10 (1 - cdf stat 1)"

text \<open>Lines 204 to 209; \<open>zScore(i)\<close> is bounds-checked.\<close>

definition classify :: "(real \<Rightarrow> real \<Rightarrow> real) \<Rightarrow> real list \<Rightarrow> nat \<Rightarrow> real \<Rightarrow> failure + nat list" where
  "classify cdf zs m thresh =
     (if length zs < m then Inl Out_of_range
      else Inr (map (\<lambda>i. if minusLogPvalueChisq2 cdf (zs ! i * zs ! i) > - log 10 thresh
                          then 1 else 0) [0..<m]))"

text \<open>Lines 195 to 214: the first random order, the first bisection, the zero vectors.\<close>

definition dentist_init :: "env \<Rightarrow> args \<Rightarrow> failure + (dentist_state \<times> nat list)" where
  "dentist_init E A =
     (case generateSetOfNumbers (draws E) (int_of_nat (markerSize A)) (seed A) of
        Inl e \<Rightarrow> Inl e
      | Inr randOrder \<Rightarrow>
     (case classify (chi2cdf E) (zScore A) (markerSize A) (groupingPvalue_thresh A) of
        Inl e \<Rightarrow> Inl e
      | Inr groupingGWAS \<Rightarrow>
          Inr (\<lparr>idx = filter (\<lambda>i. randOrder ! i > markerSize A div 2) [0..<markerSize A],
                idx2 = filter (\<lambda>i. \<not> randOrder ! i > markerSize A div 2) [0..<markerSize A],
                fullIdx = randOrder,
                res = \<lparr>imputedZ = replicate (markerSize A) 0,
                       rsq = replicate (markerSize A) 0,
                       zScore_e = replicate (markerSize A) 0\<rparr>,
                iterID = replicate (markerSize A) 0\<rparr>,
               groupingGWAS)))"

text \<open>The test of lines 238-239 and 251-252.\<close>

definition keep :: "nat \<Rightarrow> real \<Rightarrow> real \<Rightarrow> real \<Rightarrow> bool" where
  "keep g d threshold1 threshold0 = ((g = 1 \<and> d \<le> threshold1) \<or> (g = 0 \<and> d \<le> threshold0))"

text \<open>Lines 248 to 256: the survivors, in the order of \<open>fullIdx\<close>, and their counters.\<close>

fun survive ::
  "nat list \<Rightarrow> real list \<Rightarrow> real \<Rightarrow> real \<Rightarrow> nat list \<Rightarrow> nat list \<Rightarrow> int list
     \<Rightarrow> failure + (nat list \<times> int list)" where
  "survive groupingGWAS ze threshold1 threshold0 [] fullIdx_tmp ids = Inr (fullIdx_tmp, ids)"
| "survive groupingGWAS ze threshold1 threshold0 (i # rest) fullIdx_tmp ids =
     (if \<not> (i < length ze \<and> i < length groupingGWAS) then Inl Out_of_range
      else if keep (groupingGWAS ! i) \<bar>ze ! i\<bar> threshold1 threshold0
      then (if i < length ids
            then survive groupingGWAS ze threshold1 threshold0 rest
                   (fullIdx_tmp @ [i]) (ids[i := ids ! i + 1])
            else Inl Out_of_range)
      else survive groupingGWAS ze threshold1 threshold0 rest fullIdx_tmp ids)"

text \<open>
  Lines 259 to 272. \<open>chisq[chisq.size() / 2]\<close> after \<open>std::nth_element\<close> is the element of
  that rank; on an empty \<open>chisq\<close> the read is outside it. A zero inflation factor makes
  the quotient infinite or NaN, and the comparison false.
\<close>

definition gc_retain :: "real list \<Rightarrow> real list \<Rightarrow> real \<Rightarrow> nat list \<Rightarrow> nat list \<Rightarrow> failure + nat list" where
  "gc_retain chi ze pThreshold full fullIdx_tmp =
     (if chi = [] then Inl Out_of_range
      else
        let medianChisq = sort chi ! (length chi div 2);
            inflationFactor = medianChisq / (456 / 1000)
        in if \<not> list_all (\<lambda>i. i < length ze) full then Inl Out_of_range
           else Inr (fullIdx_tmp @
                     filter (\<lambda>i. inflationFactor \<noteq> 0
                                 \<and> (ze ! i) ^ 2 / inflationFactor < pThreshold) full))"

text \<open>
  Lines 277 to 282: \<open>randOrder\<close> is indexed by the marker itself, and a marker that is not
  below \<open>randOrder.size()\<close> is read outside the vector.
\<close>

definition repartition :: "nat list \<Rightarrow> nat list \<Rightarrow> failure + (nat list \<times> nat list)" where
  "repartition randOrder full =
     (if list_all (\<lambda>i. i < length randOrder) full
      then Inr (filter (\<lambda>i. randOrder ! i > length full div 2) full,
                filter (\<lambda>i. \<not> randOrder ! i > length full div 2) full)
      else Inl Out_of_range)"

text \<open>
  Lines 232 to 234: the three thresholds; \<open>neg\<close> is the operator \<open>!\<close> of line 234, and the
  literal \<open>0.995\<close> is the \<open>double\<close> nearest to \<open>995 / 1000\<close>.
\<close>

definition round_thresholds ::
  "(nat list \<Rightarrow> nat list) \<Rightarrow> real list \<Rightarrow> nat list \<Rightarrow> failure + (real \<times> real \<times> real)" where
  "round_thresholds neg diff grouping_tmp =
     (case getQuantile diff (fl64 (995 / 1000)) of Inl e \<Rightarrow> Inl e | Inr threshold \<Rightarrow>
     (case getQuantile2 diff grouping_tmp (fl64 (995 / 1000)) of
        Inl e \<Rightarrow> Inl e
      | Inr threshold1 \<Rightarrow>
     (case getQuantile2 diff (neg grouping_tmp) (fl64 (995 / 1000)) of
        Inl e \<Rightarrow> Inl e
      | Inr threshold0 \<Rightarrow> Inr (threshold, threshold1, threshold0))))"

text \<open>
  Modelled from the spec: the operator \<open>!\<close> on a \<open>std::vector<uint>\<close> is missing (no
  declaration of it exists for line 234 to use). The spec, section 4.5 step 3, has the
  group-0 threshold "computed on the elementwise logical complement of the group labels":
  each label \<open>x\<close> becomes \<open>!x\<close>, that is \<open>1\<close> for \<open>0\<close> and \<open>0\<close> for anything else.
\<close>

definition complement_labels :: "nat list \<Rightarrow> nat list" where
  "complement_labels grouping = map (\<lambda>x. if x = 0 then 1 else 0) grouping"

text \<open>Lines 225 to 230: the absolute adjusted statistics and the labels of the targets.\<close>

definition target_diff :: "outputs \<Rightarrow> nat list \<Rightarrow> real list" where
  "target_diff r tgt = map (\<lambda>j. \<bar>zScore_e r ! j\<bar>) tgt"

definition target_grouping :: "nat list \<Rightarrow> nat list \<Rightarrow> nat list" where
  "target_grouping groupingGWAS tgt = map (\<lambda>j. groupingGWAS ! j) tgt"

text \<open>Lines 237 to 242: the targets that pass the threshold of their own group.\<close>

definition qc_targets :: "nat list \<Rightarrow> real list \<Rightarrow> nat list \<Rightarrow> real \<Rightarrow> real \<Rightarrow> nat list" where
  "qc_targets tgt diff grouping_tmp threshold1 threshold0 =
     map (\<lambda>i. tgt ! i)
       (filter (\<lambda>i. keep (grouping_tmp ! i) (diff ! i) threshold1 threshold0) [0..<length diff])"

text \<open>Lines 259 to 275: the next active set, with or without the genomic-control branch.\<close>

definition next_active ::
  "bool \<Rightarrow> real list \<Rightarrow> real list \<Rightarrow> real \<Rightarrow> nat list \<Rightarrow> nat list \<Rightarrow> failure + nat list" where
  "next_active gc chi ze pThreshold full fullIdx_tmp =
     (if gc then gc_retain chi ze pThreshold full fullIdx_tmp else Inr fullIdx_tmp)"

text \<open>One pass of the body of the loop over \<open>t\<close> (lines 217 to 282).\<close>

definition dentist_round :: "env \<Rightarrow> args \<Rightarrow> nat list \<Rightarrow> nat \<Rightarrow> dentist_state \<Rightarrow> failure + dentist_state" where
  "dentist_round E A groupingGWAS t s =
     (case oneIteration (eig_sym E) (LDmat A) (idx s) (idx2 s) (zScore A) (res s)
             (nSample A) (propSVD A) of
        Inl e \<Rightarrow> Inl e
      | Inr r1 \<Rightarrow>
     if \<not> list_all (\<lambda>j. j < length (zScore_e r1) \<and> j < length groupingGWAS) (idx2 s)
     then Inl Out_of_range
     else
     (case round_thresholds (vec_not E) (target_diff r1 (idx2 s))
             (target_grouping groupingGWAS (idx2 s)) of
        Inl e \<Rightarrow> Inl e
      | Inr (threshold, threshold1, threshold0) \<Rightarrow>
     (case oneIteration (eig_sym E) (LDmat A) (idx s)
             (qc_targets (idx2 s) (target_diff r1 (idx2 s))
                (target_grouping groupingGWAS (idx2 s)) threshold1 threshold0)
             (zScore A) r1 (nSample A) (propSVD A) of
        Inl e \<Rightarrow> Inl e
      | Inr r2 \<Rightarrow>
     (case survive groupingGWAS (zScore_e r2) threshold1 threshold0 (fullIdx s) [] (iterID s) of
        Inl e \<Rightarrow> Inl e
      | Inr (fullIdx_tmp, ids) \<Rightarrow>
     (case next_active (gcControl A) (chisq E) (zScore_e r2) (pValueThreshold A) (fullIdx s)
             fullIdx_tmp of
        Inl e \<Rightarrow> Inl e
      | Inr full \<Rightarrow>
     (case generateSetOfNumbers (draws E) (int_of_nat (length full))
             (20000 + int t * 20000) of
        Inl e \<Rightarrow> Inl e
      | Inr randOrder \<Rightarrow>
     (case repartition randOrder full of
        Inl e \<Rightarrow> Inl e
      | Inr (ref, tgt) \<Rightarrow>
          Inr \<lparr>idx = ref, idx2 = tgt, fullIdx = full, res = r2, iterID = ids\<rparr>)))))))"

text \<open>The loop \<open>for (int t = 0; t < nIter; ++t)\<close>, with \<open>n\<close> rounds still to run.\<close>

fun dentist_loop :: "env \<Rightarrow> args \<Rightarrow> nat list \<Rightarrow> nat \<Rightarrow> nat \<Rightarrow> dentist_state \<Rightarrow> failure + dentist_state" where
  "dentist_loop E A groupingGWAS t 0 s = Inr s"
| "dentist_loop E A groupingGWAS t (Suc n) s =
     (case dentist_round E A groupingGWAS t s of
        Inl e \<Rightarrow> Inl e
      | Inr s' \<Rightarrow> dentist_loop E A groupingGWAS (Suc t) n s')"

text \<open>The states in which the rounds of the same loop start, first round first.\<close>

fun dentist_rounds ::
  "env \<Rightarrow> args \<Rightarrow> nat list \<Rightarrow> nat \<Rightarrow> nat \<Rightarrow> dentist_state \<Rightarrow> failure + dentist_state list" where
  "dentist_rounds E A groupingGWAS t 0 s = Inr []"
| "dentist_rounds E A groupingGWAS t (Suc n) s =
     (case dentist_round E A groupingGWAS t s of
        Inl e \<Rightarrow> Inl e
      | Inr s' \<Rightarrow>
          (case dentist_rounds E A groupingGWAS (Suc t) n s' of
             Inl e \<Rightarrow> Inl e
           | Inr ss \<Rightarrow> Inr (s # ss)))"

text \<open>The list that \<open>dentist\<close> returns.\<close>

record result =
  out_imputedZ :: "real list"
  out_rsq :: "real list"
  out_zScore_e :: "real list"
  out_iterID :: "int list"
  out_groupingGWAS :: "nat list"

definition dentist :: "env \<Rightarrow> args \<Rightarrow> failure + result" where
  "dentist E A =
     (case dentist_init E A of
        Inl e \<Rightarrow> Inl e
      | Inr (s0, groupingGWAS) \<Rightarrow>
          (case dentist_loop E A groupingGWAS 0 (nat (nIter A)) s0 of
             Inl e \<Rightarrow> Inl e
           | Inr s \<Rightarrow>
               Inr \<lparr>out_imputedZ = imputedZ (res s), out_rsq = rsq (res s),
                    out_zScore_e = zScore_e (res s), out_iterID = iterID s,
                    out_groupingGWAS = groupingGWAS\<rparr>))"

subsection \<open>Well-formed calls and a small example\<close>

text \<open>
  Marker \<open>j\<close> is inside every container that the store loop of \<open>oneIteration\<close> indexes
  with it.
\<close>

definition in_range :: "mat \<Rightarrow> real list \<Rightarrow> outputs \<Rightarrow> nat \<Rightarrow> bool" where
  "in_range L zs s j \<longleftrightarrow>
     j < length (imputedZ s) \<and> j < length (rsq s) \<and> j < length (zScore_e s)
     \<and> j < length zs \<and> j < n_rows L \<and> j < n_cols L"

text \<open>
  Five markers, of which markers \<open>0\<close> and \<open>3\<close> are correlated (\<open>1 / 2\<close>). The stand-ins
  for the library: a generator that counts, the eigendecomposition of an identity matrix
  (all that the example asks of it), a \<open>chi2cdf\<close> that is \<open>0\<close>.
\<close>

definition ex_LD :: mat where
  "ex_LD = \<lparr>n_rows = 5, n_cols = 5,
     elem = (\<lambda>i j. if i = j then 1
                    else if (i = 0 \<and> j = 3) \<or> (i = 3 \<and> j = 0) then 1 / 2 else 0)\<rparr>"

definition ex_eig :: "mat \<Rightarrow> real list \<times> mat" where
  "ex_eig V = (replicate (n_rows V) 1, V)"

definition ex_env :: env where
  "ex_env = \<lparr>draws = (\<lambda>s k. int k), eig_sym = ex_eig, chi2cdf = (\<lambda>x k. 0), chisq = [1],
     vec_not = complement_labels\<rparr>"

definition ex_args :: args where
  "ex_args = \<lparr>LDmat = ex_LD, markerSize = 5, nSample = 100, zScore = [5 / 2, 0, 0, 5, 0],
     pValueThreshold = 1 / 20, propSVD = 1, gcControl = False, nIter = 1,
     groupingPvalue_thresh = 1 / 10, ncpus = 1, seed = 1\<rparr>"

text \<open>
  The same example with markers \<open>0\<close> and \<open>3\<close> perfectly correlated, and a four-marker
  example without correlation.
\<close>

definition ex_LD_full :: mat where
  "ex_LD_full = \<lparr>n_rows = 5, n_cols = 5,
     elem = (\<lambda>i j. if i = j then 1
                    else if (i = 0 \<and> j = 3) \<or> (i = 3 \<and> j = 0) then 1 else 0)\<rparr>"

definition ex_args4 :: args where
  "ex_args4 = ex_args\<lparr>LDmat := \<lparr>n_rows = 4, n_cols = 4, elem = (\<lambda>i j. if i = j then 1 else 0)\<rparr>,
     markerSize := 4, zScore := [0, 0, 0, 0]\<rparr>"

definition ex_s4 :: dentist_state where
  "ex_s4 = \<lparr>idx = [3], idx2 = [0, 1, 2], fullIdx = [0, 1, 2, 3],
     res = \<lparr>imputedZ = [0, 0, 0, 0], rsq = [0, 0, 0, 0], zScore_e = [0, 0, 0, 0]\<rparr>,
     iterID = [0, 0, 0, 0]\<rparr>"

definition ex_out0 :: outputs where
  "ex_out0 = \<lparr>imputedZ = replicate 5 0, rsq = replicate 5 0, zScore_e = replicate 5 0\<rparr>"

definition ex_s0 :: dentist_state where
  "ex_s0 = \<lparr>idx = [3, 4], idx2 = [0, 1, 2], fullIdx = [0, 1, 2, 3, 4], res = ex_out0,
     iterID = [0, 0, 0, 0, 0]\<rparr>"

definition ex_out1 :: outputs where
  "ex_out1 = \<lparr>imputedZ = [5 / 2, 0, 0, 0, 0], rsq = [1 / 4, 0, 0, 0, 0],
     zScore_e = [0, 0, 0, 0, 0]\<rparr>"

definition ex_s1 :: dentist_state where
  "ex_s1 = \<lparr>idx = [3, 4], idx2 = [0, 1, 2], fullIdx = [0, 1, 2, 3, 4], res = ex_out1,
     iterID = [1, 1, 1, 1, 1]\<rparr>"

section \<open>Properties\<close>

subsection \<open>Rounding\<close>

lemma round_even_int [simp]: "round_even (of_int k) = k"
  by (simp add: round_even_def)

lemma round_even_bounds: "\<lfloor>x\<rfloor> \<le> round_even x" "round_even x \<le> \<lfloor>x\<rfloor> + 1"
  by (simp_all add: round_even_def Let_def)

lemma round_even_mono:
  assumes "x \<le> y" shows "round_even x \<le> round_even y"
proof (cases "\<lfloor>x\<rfloor> = \<lfloor>y\<rfloor>")
  case True
  then show ?thesis using assms by (auto simp: round_even_def Let_def)
next
  case False
  then have "\<lfloor>x\<rfloor> < \<lfloor>y\<rfloor>" using assms floor_mono [of x y] by linarith
  then have "round_even x \<le> \<lfloor>y\<rfloor>" using round_even_bounds(2) [of x] by linarith
  then show ?thesis using round_even_bounds(1) [of y] by linarith
qed

lemma round_even_le: "x \<le> of_int k \<Longrightarrow> round_even x \<le> k"
  using round_even_mono [of x "of_int k"] by simp

lemma round_even_ge: "of_int k \<le> x \<Longrightarrow> k \<le> round_even x"
  using round_even_mono [of "of_int k" x] by simp


lemma binade_facts:
  shows binade_ge: "emin \<le> binade emin x"
    and binade_less: "\<bar>x\<bar> < 2 powi (binade emin x + 1)"
    and binade_le: "binade emin x = emin \<or> 2 powi binade emin x \<le> \<bar>x\<bar>"
proof -
  define s where "s = \<bar>x\<bar> * 2 powi (- emin)"
  define a where "a = \<lfloor>s\<rfloor>"
  have x: "\<bar>x\<bar> = s * 2 powi emin"
    by (simp add: s_def power_int_minus field_simps)
  have a0: "0 \<le> a" by (simp add: a_def s_def)
  have b: "binade emin x = max emin (emin - 1 + bitlen a)"
    by (simp add: binade_def a_def s_def)
  show "emin \<le> binade emin x" by (simp add: b)
  show "\<bar>x\<bar> < 2 powi (binade emin x + 1)"
  proof (cases "a = 0")
    case True
    then have "s < 1" unfolding a_def by linarith
    then have "\<bar>x\<bar> < 2 powi emin" unfolding x by simp
    also have "(2::real) powi emin \<le> 2 powi (binade emin x + 1)"
      by (intro power_int_increasing) (simp_all add: b)
    finally show ?thesis .
  next
    case False
    then have p: "0 < a" using a0 by simp
    have "a < 2 ^ nat (bitlen a)" using bitlen_bounds [OF p] by simp
    then have "a + 1 \<le> 2 ^ nat (bitlen a)" by simp
    then have "real_of_int (a + 1) \<le> real_of_int (2 ^ nat (bitlen a))" by (rule of_int_le_iff [THEN iffD2])
    moreover have "s < real_of_int (a + 1)" unfolding a_def by linarith
    ultimately have "s < 2 ^ nat (bitlen a)" by simp
    also have "\<dots> = 2 powi bitlen a" using bitlen_nonneg [of a] by (simp add: power_int_def)
    finally have "s * 2 powi emin < 2 powi bitlen a * 2 powi emin" by simp
    also have "\<dots> = 2 powi (emin - 1 + bitlen a + 1)"
      by (simp add: power_int_add [symmetric] add.commute)
    also have "\<dots> \<le> 2 powi (binade emin x + 1)"
      by (intro power_int_increasing) (simp_all add: b)
    finally show ?thesis unfolding x .
  qed
  show "binade emin x = emin \<or> 2 powi binade emin x \<le> \<bar>x\<bar>"
  proof (cases "a = 0")
    case True
    then show ?thesis by (simp add: b)
  next
    case False
    then have p: "0 < a" using a0 by simp
    have l: "1 \<le> bitlen a" using p by (simp add: bitlen_alt_def)
    then have e: "binade emin x = emin - 1 + bitlen a" by (simp add: b)
    have "2 ^ nat (bitlen a - 1) \<le> a" using bitlen_bounds [OF p] by simp
    then have "real_of_int (2 ^ nat (bitlen a - 1)) \<le> real_of_int a" by (rule of_int_le_iff [THEN iffD2])
    also have "real_of_int a \<le> s" unfolding a_def by simp
    finally have "2 powi (bitlen a - 1) \<le> s" using l by (simp add: power_int_def)
    then have "2 powi (bitlen a - 1) * 2 powi emin \<le> s * 2 powi emin" by simp
    also have "2 powi (bitlen a - 1) * 2 powi emin = (2::real) powi (emin - 1 + bitlen a)"
      by (simp add: power_int_add [symmetric] algebra_simps)
    finally show ?thesis unfolding x e by simp
  qed
qed

lemma binade_eqI:
  assumes "emin \<le> e" "e = emin \<or> 2 powi e \<le> \<bar>x\<bar>" "\<bar>x\<bar> < 2 powi (e + 1)"
  shows "binade emin x = e"
proof (rule antisym)
  show "binade emin x \<le> e"
  proof (rule ccontr)
    assume "\<not> binade emin x \<le> e"
    then have l: "e + 1 \<le> binade emin x" by simp
    then have "binade emin x \<noteq> emin" using assms(1) by simp
    then have "2 powi binade emin x \<le> \<bar>x\<bar>" using binade_le [of emin x] by simp
    moreover have "(2::real) powi (e + 1) \<le> 2 powi binade emin x"
      using l by (intro power_int_increasing) simp_all
    ultimately show False using assms(3) by linarith
  qed
  show "e \<le> binade emin x"
  proof (rule ccontr)
    assume "\<not> e \<le> binade emin x"
    then have l: "binade emin x + 1 \<le> e" by simp
    then have "e \<noteq> emin" using binade_ge [of emin x] by simp
    then have "2 powi e \<le> \<bar>x\<bar>" using assms(2) by simp
    moreover have "(2::real) powi (binade emin x + 1) \<le> 2 powi e"
      using l by (intro power_int_increasing) simp_all
    ultimately show False using binade_less [of x emin] by linarith
  qed
qed

lemma binade_mono:
  assumes "\<bar>x\<bar> \<le> \<bar>y\<bar>" shows "binade emin x \<le> binade emin y"
proof (rule ccontr)
  assume "\<not> binade emin x \<le> binade emin y"
  then have l: "binade emin y + 1 \<le> binade emin x" by simp
  then have "binade emin x \<noteq> emin" using binade_ge [of emin y] by simp
  then have "2 powi binade emin x \<le> \<bar>x\<bar>" using binade_le [of emin x] by simp
  moreover have "(2::real) powi (binade emin y + 1) \<le> 2 powi binade emin x"
    using l by (intro power_int_increasing) simp_all
  ultimately show False using binade_less [of y emin] assms by linarith
qed

lemma fl_eval:
  assumes "emin \<le> e" "e = emin \<or> 2 powi e \<le> \<bar>x\<bar>" "\<bar>x\<bar> < 2 powi (e + 1)"
  shows "fl p emin x
    = of_int (round_even (x / 2 powi (e - int p + 1))) * 2 powi (e - int p + 1)"
  by (simp add: fl_def Let_def binade_eqI [OF assms])

lemma fl_exact:
  assumes "\<bar>k\<bar> < 2 ^ p" "emin - int p + 1 \<le> j"
  shows "fl p emin (of_int k * 2 powi j) = of_int k * 2 powi j"
proof -
  define x :: real where "x = of_int k * 2 powi j"
  define e where "e = binade emin x"
  have j: "e - int p + 1 \<le> j"
  proof (cases "e = emin")
    case True
    then show ?thesis using assms(2) by simp
  next
    case False
    then have "2 powi e \<le> \<bar>x\<bar>" using binade_le [of emin x] by (simp add: e_def)
    also have "\<bar>x\<bar> = \<bar>real_of_int k\<bar> * 2 powi j" by (simp add: x_def abs_mult)
    also have "\<bar>real_of_int k\<bar> < 2 ^ p"
      using assms(1) by (metis of_int_abs of_int_less_numeral_power_cancel_iff)
    then have "\<bar>real_of_int k\<bar> * 2 powi j < 2 ^ p * 2 powi j" by simp
    also have "(2::real) ^ p * 2 powi j = 2 powi (int p + j)"
      by (simp add: power_int_add)
    finally have "(2::real) powi e < 2 powi (int p + j)" .
    then have "e < int p + j"
      using power_int_increasing [of "int p + j" e "2::real"] by (cases "e < int p + j") auto
    then show ?thesis by simp
  qed
  define d where "d = nat (j - (e - int p + 1))"
  have "x / 2 powi (e - int p + 1) = of_int k * 2 powi (j - (e - int p + 1))"
    by (simp add: x_def power_int_diff)
  also have "(2::real) powi (j - (e - int p + 1)) = 2 ^ d"
    using j by (simp add: d_def power_int_def)
  also have "of_int k * (2::real) ^ d = of_int (k * 2 ^ d)" by simp
  finally have "round_even (x / 2 powi (e - int p + 1)) = k * 2 ^ d"
    by (simp only: round_even_int)
  then have "fl p emin x = of_int (k * 2 ^ d) * 2 powi (e - int p + 1)"
    by (simp add: fl_def Let_def e_def)
  also have "\<dots> = of_int k * (2 powi (j - (e - int p + 1)) * 2 powi (e - int p + 1))"
    using j by (simp add: d_def power_int_def)
  also have "\<dots> = x" by (simp add: x_def power_int_add [symmetric])
  finally show ?thesis by (simp add: x_def)
qed

lemma fl_of_int: "\<bar>k\<bar> < 2 ^ p \<Longrightarrow> emin - int p + 1 \<le> 0 \<Longrightarrow> fl p emin (of_int k) = of_int k"
  using fl_exact [of k p emin 0] by simp

lemma fl_of_nat: "n < 2 ^ p \<Longrightarrow> emin - int p + 1 \<le> 0 \<Longrightarrow> fl p emin (real n) = real n"
  using fl_of_int [of "int n" p emin] by (simp add: of_nat_less_numeral_power_cancel_iff)

lemma fl_mono:
  assumes "0 < p" "0 \<le> x" "x \<le> y"
  shows "fl p emin x \<le> fl p emin y"
proof -
  define ex where "ex = binade emin x"
  define ey where "ey = binade emin y"
  have le: "ex \<le> ey" unfolding ex_def ey_def using assms by (intro binade_mono) simp
  show ?thesis
  proof (cases "ex = ey")
    case True
    have "x / 2 powi (ey - int p + 1) \<le> y / 2 powi (ey - int p + 1)"
      using assms by (simp add: divide_right_mono)
    then have "round_even (x / 2 powi (ey - int p + 1)) \<le> round_even (y / 2 powi (ey - int p + 1))"
      by (rule round_even_mono)
    then show ?thesis
      using True by (simp add: fl_def Let_def ex_def [symmetric] ey_def [symmetric])
  next
    case False
    then have lt: "ex + 1 \<le> ey" using le by simp
    have p1: "(2::real) ^ p = 2 * 2 ^ (p - 1)" using assms(1) by (cases p) simp_all
    have "x < 2 powi (ex + 1)" using binade_less [of x emin] assms by (simp add: ex_def)
    then have "x / 2 powi (ex - int p + 1) \<le> 2 powi (ex + 1) / 2 powi (ex - int p + 1)"
      by (simp add: divide_right_mono)
    also have "(2::real) powi (ex + 1) / 2 powi (ex - int p + 1) = 2 powi (int p)"
      by (simp add: power_int_diff [symmetric])
    also have "(2::real) powi (int p) = of_int (2 ^ p)" by simp
    finally have "round_even (x / 2 powi (ex - int p + 1)) \<le> 2 ^ p" by (rule round_even_le)
    then have "real_of_int (round_even (x / 2 powi (ex - int p + 1))) \<le> real_of_int (2 ^ p)"
      by (rule of_int_le_iff [THEN iffD2])
    then have "fl p emin x \<le> real_of_int (2 ^ p) * 2 powi (ex - int p + 1)"
      by (simp add: fl_def Let_def ex_def [symmetric])
    also have "\<dots> = 2 powi (int p) * 2 powi (ex - int p + 1)" by simp
    also have "\<dots> = 2 powi (int p + (ex - int p + 1))"
      by (rule power_int_add [symmetric]) simp
    also have "\<dots> = 2 powi (ex + 1)" by simp
    also have "\<dots> \<le> 2 powi ey" using lt by (intro power_int_increasing) simp_all
    finally have a: "fl p emin x \<le> 2 powi ey" .
    have "ey \<noteq> emin" using lt binade_ge [of emin x] by (simp add: ex_def)
    then have "2 powi ey \<le> \<bar>y\<bar>" using binade_le [of emin y] by (simp add: ey_def)
    then have "2 powi ey \<le> y" using assms by simp
    then have "2 powi ey / 2 powi (ey - int p + 1) \<le> y / 2 powi (ey - int p + 1)"
      by (simp add: divide_right_mono)
    moreover have "(2::real) powi ey / 2 powi (ey - int p + 1) = 2 powi (int p - 1)"
      by (simp add: power_int_diff [symmetric])
    moreover have "(2::real) powi (int p - 1) = of_int (2 ^ (p - 1))"
      using assms(1) by (simp add: power_int_def nat_diff_distrib')
    ultimately have "of_int (2 ^ (p - 1)) \<le> y / 2 powi (ey - int p + 1)" by simp
    then have "2 ^ (p - 1) \<le> round_even (y / 2 powi (ey - int p + 1))" by (rule round_even_ge)
    then have "real_of_int (2 ^ (p - 1)) \<le> real_of_int (round_even (y / 2 powi (ey - int p + 1)))"
      by (rule of_int_le_iff [THEN iffD2])
    then have "real_of_int (2 ^ (p - 1)) * 2 powi (ey - int p + 1) \<le> fl p emin y"
      by (simp add: fl_def Let_def ey_def [symmetric])
    moreover have "real_of_int (2 ^ (p - 1)) * 2 powi (ey - int p + 1) = 2 powi ey"
    proof -
      have "real_of_int (2 ^ (p - 1)) = 2 powi (int p - 1)"
        using assms(1) by (simp add: power_int_def nat_diff_distrib')
      then show ?thesis by (simp add: power_int_add [symmetric])
    qed
    ultimately show ?thesis using a by linarith
  qed
qed

lemma fl_zero [simp]: "fl p emin 0 = 0"
  using round_even_int [of 0] by (simp add: fl_def)

lemma fl_fixed_pos:
  assumes "fl p emin x = x" "0 < x"
  shows "2 powi (emin - int p + 1) \<le> x"
proof -
  define u :: real where "u = 2 powi (binade emin x - int p + 1)"
  define m where "m = round_even (x / u)"
  have u: "0 < u" by (simp add: u_def)
  have x: "x = of_int m * u" using assms(1) by (simp add: fl_def Let_def u_def m_def)
  then have "0 < real_of_int m * u" using assms(2) by simp
  then have "0 < real_of_int m" using u by (simp add: zero_less_mult_iff)
  then have "1 \<le> real_of_int m" by simp
  then have "1 * u \<le> real_of_int m * u" using u by (intro mult_right_mono) simp_all
  moreover have "2 powi (emin - int p + 1) \<le> u"
    unfolding u_def using binade_ge [of emin x] by (intro power_int_increasing) simp_all
  ultimately show ?thesis using x by simp
qed

subsection \<open>Quantiles\<close>

lemma trunc_real_of_int [simp]: "trunc_real (of_int k) = k"
  by (simp add: trunc_real_def)

lemma size_t_of_int_id: "0 \<le> k \<Longrightarrow> k < 2 ^ 64 \<Longrightarrow> size_t_of_int k = nat k"
  by (simp add: size_t_of_int_def)

lemma size_t_of_int_minus1: "size_t_of_int (- 1) = 2 ^ 64 - 1"
  by (simp add: size_t_of_int_def)

lemma fl64_of_int: "\<bar>k\<bar> < 2 ^ 53 \<Longrightarrow> fl64 (of_int k) = of_int k"
  unfolding fl64_def by (rule fl_of_int) simp_all

lemma fl64_of_nat: "n < 2 ^ 53 \<Longrightarrow> fl64 (real n) = real n"
  unfolding fl64_def by (rule fl_of_nat) simp_all

lemma fl64_mono: "0 \<le> x \<Longrightarrow> x \<le> y \<Longrightarrow> fl64 x \<le> fl64 y"
  unfolding fl64_def by (rule fl_mono) simp_all

lemma fl64_le_int:
  assumes "0 \<le> x" "x \<le> of_int k" "k < 2 ^ 53"
  shows "fl64 x \<le> of_int k"
proof -
  have "0 \<le> real_of_int k" using assms by linarith
  then have "\<bar>k\<bar> < 2 ^ 53" using assms(3) by simp
  then show ?thesis using fl64_mono [OF assms(1,2)] by (simp add: fl64_of_int)
qed

lemma fl64_ge_int:
  assumes "0 \<le> k" "of_int k \<le> x" "k < 2 ^ 53"
  shows "of_int k \<le> fl64 x"
proof -
  have "\<bar>k\<bar> < 2 ^ 53" using assms by simp
  then show ?thesis using fl64_mono [of "of_int k" x] assms by (simp add: fl64_of_int)
qed

lemma double_pos:
  assumes "is_double q" "0 < q"
  shows "2 powi (- 1074) \<le> q"
  using fl_fixed_pos [of 53 "- 1022" q] assms by (simp add: is_double_def fl64_def)

lemma fl64_pos:
  assumes "2 powi (- 1074) \<le> x"
  shows "0 < fl64 x"
proof -
  have "0 \<le> (2::real) powi (- 1074)" by simp
  then have "fl64 (2 powi (- 1074)) \<le> fl64 x" using assms by (rule fl64_mono)
  moreover have "fl64 (of_int 1 * 2 powi (- 1074)) = of_int 1 * 2 powi (- 1074)"
    unfolding fl64_def by (rule fl_exact) simp_all
  ultimately have "2 powi (- 1074) \<le> fl64 x" by simp
  moreover have "0 < (2::real) powi (- 1074)" by simp
  ultimately show ?thesis by linarith
qed

text \<open>The rank computed by line 67, on the inputs of the claims.\<close>

lemma quantile_rank:
  assumes "0 < n" "n < 2 ^ 53" "is_double q" "0 < q" "q \<le> 1"
  shows "1 \<le> \<lceil>fl64 (real n * q)\<rceil>" "\<lceil>fl64 (real n * q)\<rceil> \<le> int n"
    and "quantile_pos n q = nat (\<lceil>fl64 (real n * q)\<rceil> - 1)"
    and "\<lceil>real n * q\<rceil> - 1 \<le> \<lceil>fl64 (real n * q)\<rceil>"
    and "\<lceil>fl64 (real n * q)\<rceil> \<le> \<lceil>real n * q\<rceil>"
proof -
  let ?x = "real n * q"
  let ?c = "\<lceil>fl64 ?x\<rceil>"
  have n53: "int n < 2 ^ 53" using assms(2) by (simp add: of_nat_less_numeral_power_cancel_iff)
  have x0: "0 < ?x" using assms by simp
  have "q \<le> ?x" using assms by (simp add: mult_le_cancel_right1) 
  then have "2 powi (- 1074) \<le> ?x" using double_pos [OF assms(3,4)] by linarith
  then have "0 < fl64 ?x" by (rule fl64_pos)
  then show c1: "1 \<le> ?c" by linarith
  have "?x \<le> real n" using assms by (simp add: mult_left_le)
  then have "fl64 ?x \<le> of_int (int n)" using x0 n53 by (intro fl64_le_int) simp_all
  then show cn: "?c \<le> int n" by (simp add: ceiling_le_iff)
  have "\<bar>?c - 1\<bar> < 2 ^ 53" using c1 cn n53 by linarith
  then have "fl64 (of_int (?c - 1)) = of_int (?c - 1)" by (rule fl64_of_int)
  then have "trunc_real (fl64 (of_int ?c - 1)) = ?c - 1"
    using trunc_real_of_int [of "?c - 1"] by (simp del: trunc_real_of_int)
  moreover have "(2::int) ^ 53 < 2 ^ 64" by simp
  then have "?c - 1 < 2 ^ 64" using cn n53 by linarith
  ultimately show "quantile_pos n q = nat (?c - 1)"
    using c1 by (simp add: quantile_pos_def fl64_of_nat [OF assms(2)] size_t_of_int_id)
  have f53: "\<lfloor>?x\<rfloor> < 2 ^ 53" using \<open>?x \<le> real n\<close> n53 by (simp add: floor_less_iff)
  have "of_int \<lfloor>?x\<rfloor> \<le> fl64 ?x" using x0 f53 by (intro fl64_ge_int) simp_all
  then have "\<lfloor>?x\<rfloor> \<le> ?c" by linarith
  then show "\<lceil>?x\<rceil> - 1 \<le> ?c" by linarith
  have "\<lceil>?x\<rceil> \<le> int n" using \<open>?x \<le> real n\<close> by (simp add: ceiling_le_iff)
  then have "\<lceil>?x\<rceil> < 2 ^ 53" using n53 by linarith
  then have "fl64 ?x \<le> of_int \<lceil>?x\<rceil>" using x0 by (intro fl64_le_int) simp_all
  then show "?c \<le> \<lceil>?x\<rceil>" by (simp add: ceiling_le_iff)
qed

lemma quantile_pos_zero: "quantile_pos n 0 = 2 ^ 64 - 1" "quantile_pos 0 q = 2 ^ 64 - 1"
proof -
  have z: "fl64 0 = 0" by (simp add: fl64_def)
  have "fl64 (of_int (- 1)) = of_int (- 1)" by (rule fl64_of_int) simp
  then have m: "fl64 (- 1) = - 1" by simp
  show "quantile_pos n 0 = 2 ^ 64 - 1" "quantile_pos 0 q = 2 ^ 64 - 1"
    using trunc_real_of_int [of "- 1"]
    by (simp_all add: quantile_pos_def z m size_t_of_int_minus1 del: trunc_real_of_int)
qed

lemma getQuantile_rank:
  assumes "dat \<noteq> []" "length dat < 2 ^ 53" "is_double q" "0 < q" "q \<le> 1"
  shows "getQuantile dat q = Inr (sort dat ! nat (\<lceil>fl64 (real (length dat) * q)\<rceil> - 1))"
    and "nat (\<lceil>fl64 (real (length dat) * q)\<rceil> - 1) < length dat"
    and "quantile_pos (length dat) q < length dat"
proof -
  have n: "0 < length dat" using assms by simp
  note r = quantile_rank [OF n assms(2-5)]
  show b: "nat (\<lceil>fl64 (real (length dat) * q)\<rceil> - 1) < length dat" using r(1,2) by linarith
  then show "quantile_pos (length dat) q < length dat" by (simp add: r(3))
  show "getQuantile dat q = Inr (sort dat ! nat (\<lceil>fl64 (real (length dat) * q)\<rceil> - 1))"
    using b by (simp add: getQuantile_def r(3))
qed

lemma is_double_one: "is_double 1"
  using fl64_of_int [of 1] by (simp add: is_double_def)

lemma sorted_last_Max:
  fixes xs :: "real list"
  assumes "sorted xs" "xs \<noteq> []"
  shows "xs ! (length xs - 1) = Max (set xs)"
proof -
  have m: "xs ! (length xs - 1) \<in> set xs" using assms by simp
  have "\<forall>y\<in>set xs. y \<le> xs ! (length xs - 1)"
  proof
    fix y assume "y \<in> set xs"
    then obtain i where i: "i < length xs" "y = xs ! i" by (auto simp: in_set_conv_nth)
    then show "y \<le> xs ! (length xs - 1)"
      using assms sorted_nth_mono [of xs i "length xs - 1"] by simp
  qed
  then show ?thesis using m by (intro Max_eqI [symmetric]) auto
qed

lemma getQuantile_one:
  assumes "dat \<noteq> []" "length dat < 2 ^ 53"
  shows "getQuantile dat 1 = Inr (Max (set dat))"
proof -
  have "getQuantile dat 1 = Inr (sort dat ! nat (\<lceil>fl64 (real (length dat) * 1)\<rceil> - 1))"
    using assms is_double_one by (intro getQuantile_rank) simp_all
  also have "nat (\<lceil>fl64 (real (length dat) * 1)\<rceil> - 1) = length (sort dat) - 1"
    by (simp add: fl64_of_nat [OF assms(2)])
  also have "sort dat ! (length (sort dat) - 1) = Max (set (sort dat))"
  proof (rule sorted_last_Max)
    show "sorted (sort dat)" by simp
    show "sort dat \<noteq> []" using assms(1) by (metis length_sort length_0_conv)
  qed
  finally show ?thesis by simp
qed

lemma getQuantile_mono:
  assumes "dat \<noteq> []" "length dat < 2 ^ 53" "is_double q1" "is_double q2"
    "0 < q1" "q1 \<le> q2" "q2 \<le> 1"
  shows "\<exists>a b. getQuantile dat q1 = Inr a \<and> getQuantile dat q2 = Inr b \<and> a \<le> b"
proof -
  let ?k1 = "nat (\<lceil>fl64 (real (length dat) * q1)\<rceil> - 1)"
  let ?k2 = "nat (\<lceil>fl64 (real (length dat) * q2)\<rceil> - 1)"
  have q1: "q1 \<le> 1" and q2: "0 < q2" using assms by simp_all
  have g1: "getQuantile dat q1 = Inr (sort dat ! ?k1)"
    using assms q1 by (intro getQuantile_rank) simp_all
  have g2: "getQuantile dat q2 = Inr (sort dat ! ?k2)" and b2: "?k2 < length dat"
    using assms q2 getQuantile_rank [of dat q2] by simp_all
  have "real (length dat) * q1 \<le> real (length dat) * q2"
    using assms by (simp add: mult_left_mono)
  moreover have "0 \<le> real (length dat) * q1" using assms by simp
  ultimately have "fl64 (real (length dat) * q1) \<le> fl64 (real (length dat) * q2)"
    by (intro fl64_mono)
  then have "?k1 \<le> ?k2" by (intro nat_mono diff_right_mono ceiling_mono)
  then have "sort dat ! ?k1 \<le> sort dat ! ?k2"
    using b2 by (intro sorted_nth_mono) simp_all
  then show ?thesis using g1 g2 by simp
qed

lemma fl64_tenth_of_ten: "fl64 (10 * (3602879701896397 / 36028797018963968)) = 1"
proof -
  have "fl 53 (- 1022) (10 * (3602879701896397 / 36028797018963968))
      = of_int (round_even (10 * (3602879701896397 / 36028797018963968) / 2 powi (0 - int 53 + 1)))
          * 2 powi (0 - int 53 + 1)"
    by (rule fl_eval) simp_all
  also have "\<dots> = 1" by (simp add: round_even_def power_int_minus)
  finally show ?thesis by (simp add: fl64_def)
qed

lemma is_double_tenth: "is_double (3602879701896397 / 36028797018963968)"
proof -
  have "fl 53 (- 1022) (of_int 3602879701896397 * 2 powi (- 55))
      = of_int 3602879701896397 * 2 powi (- 55)"
    by (rule fl_exact) simp_all
  then show ?thesis by (simp add: is_double_def fl64_def power_int_minus)
qed

lemma is_double_half: "is_double (1 / 2)"
proof -
  have "fl 53 (- 1022) (of_int 1 * 2 powi (- 1)) = of_int 1 * 2 powi (- 1)"
    by (rule fl_exact) simp_all
  then show ?thesis by (simp add: is_double_def fl64_def power_int_minus)
qed

lemma fl64_three_halves: "fl64 (3 / 2) = 3 / 2"
proof -
  have "fl 53 (- 1022) (of_int 3 * 2 powi (- 1)) = of_int 3 * 2 powi (- 1)"
    by (rule fl_exact) simp_all
  then show ?thesis by (simp add: fl64_def power_int_minus)
qed

lemma ex_quantile_tenth:
  "getQuantile [1, 2, 3, 4, 5, 6, 7, 8, 9, 10] (3602879701896397 / 36028797018963968) = Inr 1"
proof -
  have "quantile_pos 10 (3602879701896397 / 36028797018963968) = 0"
    using fl64_of_nat [of 10] fl64_tenth_of_ten fl64_of_int [of 0]
    by (simp add: quantile_pos_def size_t_of_int_def trunc_real_def)
  moreover have "sort [1, 2, 3, 4, 5, 6, 7, 8, 9, 10 :: real] = [1, 2, 3, 4, 5, 6, 7, 8, 9, 10]"
    by simp
  moreover have "length [1, 2, 3, 4, 5, 6, 7, 8, 9, 10 :: real] = 10" by simp
  ultimately show ?thesis unfolding getQuantile_def Let_def by (simp only: nth_Cons_0) simp
qed


lemma fl64_eval:
  assumes "- 1022 \<le> e" "2 powi e \<le> \<bar>x\<bar>" "\<bar>x\<bar> < 2 powi (e + 1)"
  shows "fl64 x = of_int (round_even (x / 2 powi (e - 52))) * 2 powi (e - 52)"
  using fl_eval [of "- 1022" e x 53] assms by (simp add: fl64_def)

lemma fl64_995: "fl64 (995 / 1000) = 8962163258467287 / 9007199254740992"
  using fl64_eval [of "- 1" "995 / 1000"] by (simp add: round_even_def power_int_minus)

lemma quantile_pos_3: "quantile_pos 3 (fl64 (995 / 1000)) = 2"
proof -
  have a: "fl64 (real 3) = 3" using fl64_of_nat [of 3] by simp
  have b: "fl64 (3 * (8962163258467287 / 9007199254740992))
      = 6721622443850465 / 2251799813685248"
    using fl64_eval [of 1 "3 * (8962163258467287 / 9007199254740992)"]
    by (simp add: round_even_def power_int_minus)
  have c: "\<lceil>6721622443850465 / 2251799813685248 :: real\<rceil> = 3" by simp
  have d: "fl64 (of_int 3 - 1) = 2" using fl64_of_int [of 2] by simp
  show ?thesis
    unfolding quantile_pos_def fl64_995 a b c d
    by (simp add: size_t_of_int_def trunc_real_def)
qed

lemma quantile_pos_50: "quantile_pos 50 (fl64 (995 / 1000)) = 49"
proof -
  have a: "fl64 (real 50) = 50" using fl64_of_nat [of 50] by simp
  have b: "fl64 (50 * (8962163258467287 / 9007199254740992)) = 199 / 4"
    using fl64_eval [of 5 "50 * (8962163258467287 / 9007199254740992)"]
    by (simp add: round_even_def power_int_minus)
  have c: "\<lceil>199 / 4 :: real\<rceil> = 50" by simp
  have d: "fl64 (of_int 50 - 1) = 49" using fl64_of_int [of 49] by simp
  show ?thesis
    unfolding quantile_pos_def fl64_995 a b c d
    by (simp add: size_t_of_int_def trunc_real_def)
qed

text \<open>
  C6. \<open>getQuantile\<close> returns the element of the ascending sort at the rank
  \<open>ceil(fl(size * q)) - 1\<close>, where \<open>fl\<close> rounds the product to double precision as line 67
  does; this rank is the rank \<open>ceil(size * q) - 1\<close> of the exact product or the one below
  it. Hence, on a non-empty input (of fewer than \<open>2 ^ 53\<close> elements) and for \<open>q\<close> a
  \<open>double\<close>, the quantile at \<open>1\<close> is the maximum and the quantile is non-decreasing in \<open>q\<close>
  over \<open>(0, 1]\<close>. \<open>getQuantile2\<close> returns exactly \<open>0\<close> when fewer than \<open>50\<close> of the values
  carry the label \<open>1\<close> (each value having its label).
\<close>

theorem getQuantile_order_statistic:
  "(dat \<noteq> [] \<and> length dat < 2 ^ 53 \<and> is_double q \<and> 0 < q \<and> q \<le> 1 \<longrightarrow>
      getQuantile dat q = Inr (sort dat ! nat (\<lceil>fl64 (real (length dat) * q)\<rceil> - 1))
      \<and> \<lceil>real (length dat) * q\<rceil> - 1 \<le> \<lceil>fl64 (real (length dat) * q)\<rceil>
      \<and> \<lceil>fl64 (real (length dat) * q)\<rceil> \<le> \<lceil>real (length dat) * q\<rceil>)
   \<and> (dat \<noteq> [] \<and> length dat < 2 ^ 53 \<longrightarrow> getQuantile dat 1 = Inr (Max (set dat)))
   \<and> (dat \<noteq> [] \<and> length dat < 2 ^ 53 \<and> is_double q1 \<and> is_double q2
       \<and> 0 < q1 \<and> q1 \<le> q2 \<and> q2 \<le> 1 \<longrightarrow>
      (\<exists>a b. getQuantile dat q1 = Inr a \<and> getQuantile dat q2 = Inr b \<and> a \<le> b))
   \<and> (length vals \<le> length grouping
      \<and> length (filter (\<lambda>i. grouping ! i = 1) [0..<length vals]) < 50 \<longrightarrow>
      getQuantile2 vals grouping p = Inr 0)"
proof -
  have p1: "dat \<noteq> [] \<and> length dat < 2 ^ 53 \<and> is_double q \<and> 0 < q \<and> q \<le> 1 \<longrightarrow>
      getQuantile dat q = Inr (sort dat ! nat (\<lceil>fl64 (real (length dat) * q)\<rceil> - 1))
      \<and> \<lceil>real (length dat) * q\<rceil> - 1 \<le> \<lceil>fl64 (real (length dat) * q)\<rceil>
      \<and> \<lceil>fl64 (real (length dat) * q)\<rceil> \<le> \<lceil>real (length dat) * q\<rceil>"
  proof
    assume h: "dat \<noteq> [] \<and> length dat < 2 ^ 53 \<and> is_double q \<and> 0 < q \<and> q \<le> 1"
    then have n: "0 < length dat" by simp
    have a: "getQuantile dat q = Inr (sort dat ! nat (\<lceil>fl64 (real (length dat) * q)\<rceil> - 1))"
      using h by (intro getQuantile_rank) simp_all
    have b: "\<lceil>real (length dat) * q\<rceil> - 1 \<le> \<lceil>fl64 (real (length dat) * q)\<rceil>"
      using h n by (intro quantile_rank) simp_all
    have c: "\<lceil>fl64 (real (length dat) * q)\<rceil> \<le> \<lceil>real (length dat) * q\<rceil>"
      using h n by (intro quantile_rank) simp_all
    show "getQuantile dat q = Inr (sort dat ! nat (\<lceil>fl64 (real (length dat) * q)\<rceil> - 1))
      \<and> \<lceil>real (length dat) * q\<rceil> - 1 \<le> \<lceil>fl64 (real (length dat) * q)\<rceil>
      \<and> \<lceil>fl64 (real (length dat) * q)\<rceil> \<le> \<lceil>real (length dat) * q\<rceil>"
      by (intro conjI a b c)
  qed
  have p2: "dat \<noteq> [] \<and> length dat < 2 ^ 53 \<longrightarrow> getQuantile dat 1 = Inr (Max (set dat))"
    using getQuantile_one [of dat] by blast
  have p3: "dat \<noteq> [] \<and> length dat < 2 ^ 53 \<and> is_double q1 \<and> is_double q2
       \<and> 0 < q1 \<and> q1 \<le> q2 \<and> q2 \<le> 1 \<longrightarrow>
      (\<exists>a b. getQuantile dat q1 = Inr a \<and> getQuantile dat q2 = Inr b \<and> a \<le> b)"
    using getQuantile_mono [of dat q1 q2] by blast
  have p4: "length vals \<le> length grouping
      \<and> length (filter (\<lambda>i. grouping ! i = 1) [0..<length vals]) < 50 \<longrightarrow>
      getQuantile2 vals grouping p = Inr 0"
    by (simp add: getQuantile2_def)
  show ?thesis by (intro conjI p1 p2 p3 p4)
qed

theorem getQuantile_order_statistic_witness:
  "getQuantile [3, 1, 2] (1 / 2) = Inr 2
   \<and> getQuantile [3, 1, 2] 1 = Inr 3
   \<and> (\<exists>a b. getQuantile [3, 1, 2] (1 / 2) = Inr a \<and> getQuantile [3, 1, 2] 1 = Inr b \<and> a \<le> b)
   \<and> getQuantile2 [5, 7] [1, 0] (1 / 2) = Inr 0
   \<and> getQuantile [1, 2, 3, 4, 5, 6, 7, 8, 9, 10] (3602879701896397 / 36028797018963968) = Inr 1"
proof -
  let ?ten = "[1, 2, 3, 4, 5, 6, 7, 8, 9, 10 :: real]"
  let ?q = "3602879701896397 / 36028797018963968 :: real"
  have h5: "?ten \<noteq> [] \<and> length ?ten < 2 ^ 53 \<and> is_double ?q \<and> 0 < ?q \<and> ?q \<le> 1"
    using is_double_tenth by simp
  note t2 = getQuantile_order_statistic [of ?ten ?q]
  have e: "getQuantile ?ten ?q
      = Inr (sort ?ten ! nat (\<lceil>fl64 (real (length ?ten) * ?q)\<rceil> - 1))"
    using t2 [THEN conjunct1, THEN mp, OF h5] by (rule conjunct1)
  have e': "getQuantile ?ten ?q = Inr 1"
    using e fl64_tenth_of_ten by simp
  have h1: "[3, 1, 2 :: real] \<noteq> [] \<and> length [3, 1, 2 :: real] < 2 ^ 53
      \<and> is_double (1 / 2) \<and> (0 :: real) < 1 / 2 \<and> (1 / 2 :: real) \<le> 1"
    using is_double_half by simp
  have h2: "[3, 1, 2 :: real] \<noteq> [] \<and> length [3, 1, 2 :: real] < 2 ^ 53" by simp
  have h3: "[3, 1, 2 :: real] \<noteq> [] \<and> length [3, 1, 2 :: real] < 2 ^ 53
      \<and> is_double (1 / 2) \<and> is_double 1
      \<and> (0 :: real) < 1 / 2 \<and> (1 / 2 :: real) \<le> 1 \<and> (1 :: real) \<le> 1"
    using is_double_half is_double_one by simp
  have h4: "length [5, 7 :: real] \<le> length [1, 0 :: nat]
      \<and> length (filter (\<lambda>i. [1, 0 :: nat] ! i = 1) [0..<length [5, 7 :: real]]) < 50" by simp
  note t = getQuantile_order_statistic
    [of "[3, 1, 2]" "1 / 2" "1 / 2" 1 "[5, 7]" "[1, 0]" "1 / 2"]
  have a: "getQuantile [3, 1, 2] (1 / 2)
      = Inr (sort [3, 1, 2] ! nat (\<lceil>fl64 (real (length [3, 1, 2 :: real]) * (1 / 2))\<rceil> - 1))"
    using t [THEN conjunct1, THEN mp, OF h1] by (rule conjunct1)
  have s: "sort [3, 1, 2 :: real] ! nat (\<lceil>fl64 (real (length [3, 1, 2 :: real]) * (1 / 2))\<rceil> - 1) = 2"
    by (simp add: fl64_three_halves)
  have b: "getQuantile [3, 1, 2] 1 = Inr (Max (set [3, 1, 2]))"
    by (rule t [THEN conjunct2, THEN conjunct1, THEN mp, OF h2])
  have c: "\<exists>a b. getQuantile [3, 1, 2] (1 / 2) = Inr a \<and> getQuantile [3, 1, 2] 1 = Inr b \<and> a \<le> b"
    by (rule t [THEN conjunct2, THEN conjunct2, THEN conjunct1, THEN mp, OF h3])
  have d: "getQuantile2 [5, 7] [1, 0] (1 / 2) = Inr 0"
    by (rule t [THEN conjunct2, THEN conjunct2, THEN conjunct2, THEN mp, OF h4])
  show ?thesis using a s b c d e' by simp
qed

theorem getQuantile_exact_rank_counterexample:
  "getQuantile [1, 2, 3, 4, 5, 6, 7, 8, 9, 10] (3602879701896397 / 36028797018963968) = Inr 1
   \<and> sort [1, 2, 3, 4, 5, 6, 7, 8, 9, 10 :: real]
       ! nat (\<lceil>real (length [1, 2, 3, 4, 5, 6, 7, 8, 9, 10 :: real])
                * (3602879701896397 / 36028797018963968)\<rceil> - 1) = 2"
  using ex_quantile_tenth by simp

text \<open>
  C10. For a non-empty input (of fewer than \<open>2 ^ 53\<close> elements) and a \<open>double\<close> \<open>q\<close> in
  \<open>(0, 1]\<close> the index computed by line 67 is within bounds and \<open>getQuantile\<close> returns a
  value. For the empty input the index is \<open>-1\<close>, which as a \<open>size_t\<close> is \<open>2 ^ 64 - 1\<close>, and
  the access fails whatever \<open>q\<close> is; the same happens at \<open>q = 0\<close> on any input.
\<close>

theorem getQuantile_index_bounds:
  "(dat \<noteq> [] \<and> length dat < 2 ^ 53 \<and> is_double q \<and> 0 < q \<and> q \<le> 1 \<longrightarrow>
      quantile_pos (length dat) q < length dat
      \<and> (\<exists>v. getQuantile dat q = Inr v))
   \<and> quantile_pos (length ([] :: real list)) q = 2 ^ 64 - 1
   \<and> getQuantile [] q = Inl Out_of_range
   \<and> quantile_pos (length dat) 0 = 2 ^ 64 - 1
   \<and> (length dat < 2 ^ 64 \<longrightarrow> getQuantile dat 0 = Inl Out_of_range)"
proof -
  have p1: "dat \<noteq> [] \<and> length dat < 2 ^ 53 \<and> is_double q \<and> 0 < q \<and> q \<le> 1 \<longrightarrow>
      quantile_pos (length dat) q < length dat \<and> (\<exists>v. getQuantile dat q = Inr v)"
  proof
    assume h: "dat \<noteq> [] \<and> length dat < 2 ^ 53 \<and> is_double q \<and> 0 < q \<and> q \<le> 1"
    then have a: "quantile_pos (length dat) q < length dat"
      by (intro getQuantile_rank) simp_all
    then have "\<exists>v. getQuantile dat q = Inr v" by (simp add: getQuantile_def)
    then show "quantile_pos (length dat) q < length dat \<and> (\<exists>v. getQuantile dat q = Inr v)"
      using a by simp
  qed
  have p2: "quantile_pos (length ([] :: real list)) q = 2 ^ 64 - 1"
    by (simp add: quantile_pos_zero)
  have p3: "getQuantile [] q = Inl Out_of_range"
    by (simp add: getQuantile_def quantile_pos_zero)
  have p4: "quantile_pos (length dat) 0 = 2 ^ 64 - 1" by (simp add: quantile_pos_zero)
  have p5: "length dat < 2 ^ 64 \<longrightarrow> getQuantile dat 0 = Inl Out_of_range"
    by (simp add: getQuantile_def quantile_pos_zero)
  show ?thesis by (intro conjI p1 p2 p3 p4 p5)
qed

theorem getQuantile_index_bounds_witness:
  "quantile_pos (length [4, 9 :: real]) (1 / 2) < length [4, 9 :: real]
   \<and> (\<exists>v. getQuantile [4, 9] (1 / 2) = Inr v)
   \<and> getQuantile [] (1 / 2) = Inl Out_of_range
   \<and> getQuantile [4, 9] 0 = Inl Out_of_range"
proof -
  have h1: "[4, 9 :: real] \<noteq> [] \<and> length [4, 9 :: real] < 2 ^ 53 \<and> is_double (1 / 2)
      \<and> (0 :: real) < 1 / 2 \<and> (1 / 2 :: real) \<le> 1"
    using is_double_half by simp
  have h2: "length [4, 9 :: real] < 2 ^ 64" by simp
  note t = getQuantile_index_bounds [of "[4, 9]" "1 / 2"]
  note a = t [THEN conjunct1, THEN mp, OF h1]
  note b = t [THEN conjunct2, THEN conjunct2, THEN conjunct1]
  note c = t [THEN conjunct2, THEN conjunct2, THEN conjunct2, THEN conjunct2, THEN mp, OF h2]
  show ?thesis by (intro conjI a [THEN conjunct1] a [THEN conjunct2] b c)
qed


subsection \<open>The store loop and the imputation\<close>

lemma scatter_frame:
  "scatter L zs imp r js i s = Inr s' \<Longrightarrow>
     length (imputedZ s') = length (imputedZ s) \<and> length (rsq s') = length (rsq s)
     \<and> length (zScore_e s') = length (zScore_e s)
     \<and> (\<forall>k. k \<notin> set js \<longrightarrow> imputedZ s' ! k = imputedZ s ! k \<and> rsq s' ! k = rsq s ! k
            \<and> zScore_e s' ! k = zScore_e s ! k)"
proof (induction js arbitrary: i s)
  case Nil
  then show ?case by simp
next
  case (Cons j js)
  from Cons.prems show ?case
    by (auto simp: Let_def mat_at_def split: if_splits sum.splits dest!: Cons.IH)
qed

lemma scatter_rsq:
  "scatter L zs imp r js i s = Inr s' \<Longrightarrow>
     (\<forall>n<length js. r ! (i + n) < 1)
     \<and> (\<forall>j\<in>set js. \<exists>n<length js. rsq s' ! j = r ! (i + n))"
proof (induction js arbitrary: i s)
  case Nil
  then show ?case by simp
next
  case (Cons j js)
  let ?s1 = "s\<lparr>imputedZ := (imputedZ s)[j := imp ! i], rsq := (rsq s)[j := r ! i]\<rparr>"
  from Cons.prems obtain v where
    b: "j < length (imputedZ s)" "j < length (rsq s)" "r ! i < 1"
    and rec: "scatter L zs imp r js (Suc i)
       (?s1\<lparr>zScore_e := (zScore_e ?s1)[j := (zs ! j - imputedZ ?s1 ! j) / sqrt (v - rsq ?s1 ! j)]\<rparr>) = Inr s'"
    by (auto simp: Let_def split: if_splits sum.splits)
  note ih = Cons.IH [OF rec]
  have a: "\<forall>n<length (j # js). r ! (i + n) < 1"
  proof (intro allI impI)
    fix n assume "n < length (j # js)"
    then show "r ! (i + n) < 1" using b(3) ih by (cases n) auto
  qed
  have c: "\<forall>k\<in>set (j # js). \<exists>n<length (j # js). rsq s' ! k = r ! (i + n)"
  proof
    fix k assume k: "k \<in> set (j # js)"
    show "\<exists>n<length (j # js). rsq s' ! k = r ! (i + n)"
    proof (cases "k \<in> set js")
      case True
      then obtain n where "n < length js" "rsq s' ! k = r ! (Suc i + n)" using ih by blast
      then show ?thesis by (intro exI [of _ "Suc n"]) simp
    next
      case False
      then have kj: "k = j" using k by simp
      have "rsq s' ! j = rsq ?s1 ! j" using scatter_frame [OF rec] False kj by simp
      then show ?thesis using b kj by (intro exI [of _ 0]) simp
    qed
  qed
  show ?case using a c by blast
qed

lemma scatter_stop:
  assumes "list_all (in_range L zs s) js"
  shows "(scatter L zs imp r js i s = Inl Terminated \<longleftrightarrow> (\<exists>n<length js. r ! (i + n) \<ge> 1))
       \<and> ((\<forall>n<length js. r ! (i + n) < 1) \<longrightarrow> (\<exists>s'. scatter L zs imp r js i s = Inr s'))"
  using assms
proof (induction js arbitrary: i s)
  case Nil
  then show ?case by simp
next
  case (Cons j js)
  let ?s1 = "s\<lparr>imputedZ := (imputedZ s)[j := imp ! i], rsq := (rsq s)[j := r ! i]\<rparr>"
  let ?s2 = "?s1\<lparr>zScore_e := (zScore_e ?s1)[j := (zs ! j - imputedZ ?s1 ! j) / sqrt (elem L j j - rsq ?s1 ! j)]\<rparr>"
  have j: "in_range L zs s j" and js: "list_all (in_range L zs s) js" using Cons.prems by simp_all
  have js2: "list_all (in_range L zs ?s2) js" using js by (simp add: in_range_def list_all_iff)
  note ih = Cons.IH [OF js2, of "Suc i"]
  have ex: "(\<exists>n<length (j # js). r ! (i + n) \<ge> 1) \<longleftrightarrow> r ! i \<ge> 1 \<or> (\<exists>n<length js. r ! (Suc i + n) \<ge> 1)"
  proof
    assume "\<exists>n<length (j # js). r ! (i + n) \<ge> 1"
    then obtain n where n: "n < length (j # js)" "r ! (i + n) \<ge> 1" by blast
    then show "r ! i \<ge> 1 \<or> (\<exists>n<length js. r ! (Suc i + n) \<ge> 1)" by (cases n) auto
  next
    assume "r ! i \<ge> 1 \<or> (\<exists>n<length js. r ! (Suc i + n) \<ge> 1)"
    then show "\<exists>n<length (j # js). r ! (i + n) \<ge> 1"
    proof
      assume "r ! i \<ge> 1" then show ?thesis by (intro exI [of _ 0]) simp
    next
      assume "\<exists>n<length js. r ! (Suc i + n) \<ge> 1"
      then obtain n where "n < length js" "r ! (Suc i + n) \<ge> 1" by blast
      then show ?thesis by (intro exI [of _ "Suc n"]) simp
    qed
  qed
  show ?case
  proof (cases "r ! i \<ge> 1")
    case True
    then have "scatter L zs imp r (j # js) i s = Inl Terminated" using j by (simp add: in_range_def)
    then show ?thesis using True ex by (auto intro: exI [of _ 0])
  next
    case False
    then have st: "scatter L zs imp r (j # js) i s = scatter L zs imp r js (Suc i) ?s2"
      using j by (simp add: in_range_def mat_at_def Let_def)
    have al: "(\<forall>n<length (j # js). r ! (i + n) < 1) \<longleftrightarrow> (\<forall>n<length js. r ! (Suc i + n) < 1)"
      using ex False by (metis not_le)
    show ?thesis unfolding st al ex using ih False by simp
  qed
qed

lemma impute_Inr:
  assumes "impute eig L rs ts zs nS p = Inr (imp, r)"
  obtains LD_it zse VV eigval eigvec K ui wi where
    "gather L ts rs = Inr LD_it" "gather_vec zs rs = Inr zse" "gather L rs rs = Inr VV"
    "eig VV = (eigval, eigvec)" "K = truncation_rank (length rs) nS p eigval eigvec" "2 \<le> K"
    "select_top eigval eigvec K = Inr (ui, wi)" "n_cols LD_it = n_rows ui"
    "imp = mat_vec (mat_mul (mat_mul LD_it ui) wi) (mat_vec (mat_t ui) zse)"
    "r = mat_diag (mat_mul (mat_mul (mat_mul LD_it ui) wi) (mat_mul (mat_t ui) (mat_t LD_it)))"
  using assms
  by (auto simp: impute_def Let_def split: sum.splits prod.splits if_splits)

lemma int_of_nat_id: "n < 2 ^ 31 \<Longrightarrow> int_of_nat n = int n"
  by (simp add: int_of_nat_def)

lemma uint_of_int_id: "0 \<le> k \<Longrightarrow> k < 2 ^ 32 \<Longrightarrow> uint_of_int k = nat k"
  by (simp add: uint_of_int_def)

lemma scatter_not_rank: "scatter L zs imp r js i s \<noteq> Inl Rank_stop"
  by (induction js arbitrary: i s) (auto simp: Let_def mat_at_def split: sum.splits)

lemma fl32_of_int: "\<bar>k\<bar> < 2 ^ 24 \<Longrightarrow> fl32 (of_int k) = of_int k"
  unfolding fl32_def by (rule fl_of_int) simp_all

lemma fl32_of_nat: "n < 2 ^ 24 \<Longrightarrow> fl32 (real n) = real n"
  unfolding fl32_def by (rule fl_of_nat) simp_all

lemma fl32_mono: "0 \<le> x \<Longrightarrow> x \<le> y \<Longrightarrow> fl32 x \<le> fl32 y"
  unfolding fl32_def by (rule fl_mono) simp_all

text \<open>Line 91 on a proportion in \<open>[0, 1]\<close> and fewer than \<open>2 ^ 24\<close> markers or samples.\<close>

lemma initial_rank_rounded:
  assumes "0 \<le> p" "p \<le> 1" "n < 2 ^ 32" "min n nS < 2 ^ 24"
  shows "initial_rank n nS p = nat \<lfloor>fl32 (real (min n nS) * p)\<rfloor>"
    and "nat \<lfloor>real (min n nS) * p\<rfloor> \<le> initial_rank n nS p"
    and "initial_rank n nS p \<le> nat \<lceil>real (min n nS) * p\<rceil>"
proof -
  let ?m = "min n nS"
  let ?x = "real ?m * p"
  have m24: "int ?m < 2 ^ 24"
    using assms(4) by (simp only: of_nat_less_numeral_power_cancel_iff)
  have x0: "0 \<le> ?x" using assms by simp
  have xm: "?x \<le> real ?m" using assms by (simp add: mult_left_le)
  have lo: "of_int \<lfloor>?x\<rfloor> \<le> fl32 ?x"
  proof -
    have "\<lfloor>?x\<rfloor> \<le> int ?m" using xm by (simp add: floor_le_iff)
    moreover have "0 \<le> \<lfloor>?x\<rfloor>" using x0 by simp
    ultimately have "\<bar>\<lfloor>?x\<rfloor>\<bar> < 2 ^ 24" using m24 by linarith
    then have "fl32 (of_int \<lfloor>?x\<rfloor>) = of_int \<lfloor>?x\<rfloor>" by (rule fl32_of_int)
    moreover have "fl32 (of_int \<lfloor>?x\<rfloor>) \<le> fl32 ?x" using x0 by (intro fl32_mono) simp_all
    ultimately show ?thesis by simp
  qed
  have hi: "fl32 ?x \<le> of_int \<lceil>?x\<rceil>"
  proof -
    have "\<lceil>?x\<rceil> \<le> int ?m" using xm by (simp add: ceiling_le_iff)
    moreover have "0 \<le> \<lceil>?x\<rceil>" using x0 ceiling_mono [of 0 "?x"] by simp
    ultimately have "\<bar>\<lceil>?x\<rceil>\<bar> < 2 ^ 24" using m24 by linarith
    then have "fl32 (of_int \<lceil>?x\<rceil>) = of_int \<lceil>?x\<rceil>" by (rule fl32_of_int)
    moreover have "fl32 ?x \<le> fl32 (of_int \<lceil>?x\<rceil>)" using x0 by (intro fl32_mono) simp_all
    ultimately show ?thesis by simp
  qed
  have f0: "0 \<le> fl32 ?x" using lo x0 by (meson of_int_0_le_iff order_trans zero_le_floor)
  have k0: "0 \<le> \<lfloor>fl32 ?x\<rfloor>" using f0 by simp
  have "\<lfloor>fl32 ?x\<rfloor> \<le> \<lceil>?x\<rceil>" using hi by (simp add: floor_le_iff)
  moreover have "\<lceil>?x\<rceil> \<le> int ?m" using xm by (simp add: ceiling_le_iff)
  moreover have "(2::int) ^ 24 < 2 ^ 32" by simp
  ultimately have k32: "\<lfloor>fl32 ?x\<rfloor> < 2 ^ 32" using m24 by linarith
  have "initial_rank n nS p = uint_of_int \<lfloor>fl32 ?x\<rfloor>"
    using assms(3) f0 by (simp add: initial_rank_def trunc_real_def fl32_of_nat [OF assms(4)])
  then show e: "initial_rank n nS p = nat \<lfloor>fl32 ?x\<rfloor>"
    using k0 k32 by (simp add: uint_of_int_id)
  have "\<lfloor>?x\<rfloor> \<le> \<lfloor>fl32 ?x\<rfloor>" using lo by (simp add: le_floor_iff)
  then show "nat \<lfloor>?x\<rfloor> \<le> initial_rank n nS p" unfolding e by (rule nat_mono)
  have "\<lfloor>fl32 ?x\<rfloor> \<le> \<lceil>?x\<rceil>" using hi by (simp add: floor_le_iff)
  then show "initial_rank n nS p \<le> nat \<lceil>?x\<rceil>" unfolding e by (rule nat_mono)
qed

lemma initial_rank_all:
  assumes "n < 2 ^ 24"
  shows "initial_rank n nS 1 = min n nS"
proof -
  have "(2::nat) ^ 24 < 2 ^ 32" by simp
  then have n: "n < 2 ^ 32" using assms by linarith
  have m: "min n nS < 2 ^ 24" using assms by simp
  have "initial_rank n nS 1 = nat \<lfloor>fl32 (real (min n nS) * 1)\<rfloor>"
    using n m by (intro initial_rank_rounded) simp_all
  then show ?thesis by (simp add: fl32_of_nat [OF m])
qed

lemma fl32_seven: "fl32 (10 * (11744051 / 16777216)) = 7"
proof -
  have "fl 24 (- 126) (10 * (11744051 / 16777216))
      = of_int (round_even (10 * (11744051 / 16777216) / 2 powi (2 - int 24 + 1)))
          * 2 powi (2 - int 24 + 1)"
    by (rule fl_eval) simp_all
  also have "\<dots> = 7" by (simp add: round_even_def power_int_minus)
  finally show ?thesis by (simp add: fl32_def)
qed

lemma ex_initial_rank: "initial_rank 10 100 (11744051 / 16777216) = 7"
  using fl32_of_nat [of 10] fl32_seven
  by (simp add: initial_rank_def trunc_real_def uint_of_int_def)

lemma effective_rank_count:
  assumes "length eigval = n_rows eigvec" "n_rows eigvec < 2 ^ 31"
  shows "uint_of_int (effective_rank eigval eigvec)
       = length (filter (\<lambda>x. \<not> x < 1 / 10000) eigval)"
proof -
  let ?z = "length (filter (\<lambda>x. x < 1 / 10000) eigval)"
  let ?g = "length (filter (\<lambda>x. \<not> x < 1 / 10000) eigval)"
  have sum: "?z + ?g = n_rows eigvec"
    using sum_length_filter_compl [of "\<lambda>x. x < 1 / 10000" eigval] assms(1) by simp
  then have z31: "?z < 2 ^ 31" using assms(2) by linarith
  have er: "effective_rank eigval eigvec = int (n_rows eigvec) - int ?z"
    unfolding effective_rank_def int_of_nat_id [OF assms(2)] int_of_nat_id [OF z31] ..
  have eq: "int (n_rows eigvec) - int ?z = int ?g" using sum by linarith
  have "(2::nat) ^ 31 < 2 ^ 32" by simp
  then have "?g < 2 ^ 32" using sum assms(2) by linarith
  then have "int ?g < 2 ^ 32" by (simp add: of_nat_less_numeral_power_cancel_iff)
  then show ?thesis unfolding er eq by (simp add: uint_of_int_id)
qed

lemma oneIteration_rank_iff:
  assumes "gather L ts rs = Inr LD_it" "gather_vec zs rs = Inr zse" "gather L rs rs = Inr VV"
  shows "oneIteration eig L rs ts zs s nS p = Inl Rank_stop
     \<longleftrightarrow> truncation_rank (length rs) nS p (fst (eig VV)) (snd (eig VV)) \<le> 1"
  using assms scatter_not_rank
  by (auto simp: oneIteration_def impute_def select_top_def Let_def
      split: sum.splits prod.splits if_splits)

lemma oneIteration_Inr:
  assumes "oneIteration eig L rs ts zs s nS p = Inr s'"
  obtains imp r where "impute eig L rs ts zs nS p = Inr (imp, r)"
    "scatter L zs imp r ts 0 s = Inr s'"
  using assms by (auto simp: oneIteration_def split: sum.splits prod.splits)

lemma oneIteration_rank_ge2:
  assumes "oneIteration eig L rs ts zs s nS p = Inr s'"
  shows "\<exists>VV. gather L rs rs = Inr VV
     \<and> 2 \<le> truncation_rank (length rs) nS p (fst (eig VV)) (snd (eig VV))"
proof -
  from assms obtain imp r where "impute eig L rs ts zs nS p = Inr (imp, r)"
    by (rule oneIteration_Inr)
  then show ?thesis by (elim impute_Inr) auto
qed

subsection \<open>The example, evaluated\<close>

lemma lessThan_2: "{..<(2::nat)} = {0, 1}"
  by auto

lemma lessThan_3: "{..<(3::nat)} = {0, 1, 2}"
  by auto

lemmas impute_eval =
  impute_def gather_def gather_vec_def ex_LD_def ex_eig_def truncation_rank_def
  initial_rank_all effective_rank_def uint_of_int_def int_of_nat_def
  select_top_def top_index_def Let_def mat_mul_def mat_t_def mat_vec_def mat_diag_def
  lessThan_2 lessThan_3 upt_rec [of _ "numeral n" for n]

lemma ex_gather_tgt:
  "gather ex_LD [0, 1, 2] [3, 4]
     = Inr \<lparr>n_rows = 3, n_cols = 2, elem = (\<lambda>i k. elem ex_LD ([0, 1, 2] ! i) ([3, 4] ! k))\<rparr>"
  by (simp add: gather_def ex_LD_def)

lemma ex_gather_ref:
  "gather ex_LD [3, 4] [3, 4]
     = Inr \<lparr>n_rows = 2, n_cols = 2, elem = (\<lambda>i k. elem ex_LD ([3, 4] ! i) ([3, 4] ! k))\<rparr>"
  by (simp add: gather_def ex_LD_def)

lemma ex_gather_vec: "gather_vec [5 / 2, 0, 0, 5, 0] [3, 4] = Inr [5, 0]"
  by (simp add: gather_vec_def)

lemma ex_rank:
  "truncation_rank (length [3, 4 :: nat]) 100 1
     (fst (ex_eig \<lparr>n_rows = 2, n_cols = 2, elem = (\<lambda>i k. elem ex_LD ([3, 4] ! i) ([3, 4] ! k))\<rparr>))
     (snd (ex_eig \<lparr>n_rows = 2, n_cols = 2, elem = (\<lambda>i k. elem ex_LD ([3, 4] ! i) ([3, 4] ! k))\<rparr>))
   = 2"
  by (simp add: impute_eval)

lemma ex_impute:
  "impute ex_eig ex_LD [3, 4] [0, 1, 2] [5 / 2, 0, 0, 5, 0] 100 1
     = Inr ([5 / 2, 0, 0], [1 / 4, 0, 0])"
  by (simp add: impute_eval)

lemma ex_oneIteration:
  "oneIteration ex_eig ex_LD [3, 4] [0, 1, 2] [5 / 2, 0, 0, 5, 0] ex_out0 100 1
     = Inr \<lparr>imputedZ = [5 / 2, 0, 0, 0, 0], rsq = [1 / 4, 0, 0, 0, 0],
            zScore_e = [0, 0, 0, 0, 0]\<rparr>"
  unfolding oneIteration_def ex_impute
  by (simp add: ex_out0_def mat_at_def ex_LD_def eval_nat_numeral)

subsection \<open>The random order\<close>

lemma sort_indexes_perm: "mset (sort_indexes v n) = mset [0..<n]"
  by (simp add: sort_indexes_def)

lemma generateSetOfNumbers_perm:
  assumes "generateSetOfNumbers d N sd = Inr r"
  shows "0 < N" "mset r = mset [0..<nat N]"
  using assms
  by (auto simp: generateSetOfNumbers_def sort_indexes_perm split: if_splits option.splits)

lemma perm_upt_facts:
  assumes "mset r = mset [0..<n]"
  shows "length r = n" "set r = {0..<n}" "distinct r"
proof -
  show "length r = n" using assms by (metis length_upt minus_nat.diff_0 size_mset)
  show "set r = {0..<n}" using assms by (metis set_mset_mset set_upt)
  show "distinct r" using assms by (metis distinct_upt mset_eq_imp_distinct_iff)
qed

lemma generateSetOfNumbers_outcomes:
  assumes "0 < N"
  shows "generateSetOfNumbers d N sd = Inl No_return \<or> (\<exists>r. generateSetOfNumbers d N sd = Inr r)"
  using assms by (auto simp: generateSetOfNumbers_def split: option.splits)

lemma draw_unique_fresh:
  assumes "k \<le> j" "ds j \<notin> set numbers" "ds j \<noteq> - 1"
    and "\<forall>i. k \<le> i \<and> i < j \<longrightarrow> ds i \<in> set numbers \<or> ds i = - 1"
  shows "draw_unique ds numbers k = Some (ds j, Suc j)"
  using assms
proof (induction "j - k" arbitrary: k)
  case 0
  then have "k = j" by simp
  then show ?case using "0.prems" by (subst draw_unique.simps) (simp add: list_ex_iff)
next
  case (Suc n)
  then have kj: "k < j" by simp
  then have retry: "ds k \<in> set numbers \<or> ds k = - 1" using Suc.prems(4) by simp
  have "draw_unique ds numbers (Suc k) = Some (ds j, Suc j)"
    using Suc.hyps(2) Suc.prems kj by (intro Suc.hyps(1)) auto
  then show ?case using retry by (subst draw_unique.simps) (auto simp: list_ex_iff)
qed

lemma draw_unique_returns:
  assumes "\<exists>j\<ge>k. ds j \<notin> set numbers \<and> ds j \<noteq> - 1"
  shows "\<exists>x k'. draw_unique ds numbers k = Some (x, k')"
proof -
  let ?P = "\<lambda>j. k \<le> j \<and> ds j \<notin> set numbers \<and> ds j \<noteq> - 1"
  from assms have ex: "\<exists>j. ?P j" by blast
  let ?j = "LEAST j. ?P j"
  have P: "?P ?j" using ex by (rule LeastI_ex)
  have least: "\<forall>i. k \<le> i \<and> i < ?j \<longrightarrow> ds i \<in> set numbers \<or> ds i = - 1"
  proof (intro allI impI)
    fix i assume i: "k \<le> i \<and> i < ?j"
    then have "\<not> ?P i" using not_less_Least by blast
    then show "ds i \<in> set numbers \<or> ds i = - 1" using i by blast
  qed
  have "draw_unique ds numbers k = Some (ds ?j, Suc ?j)"
    using P least by (intro draw_unique_fresh) blast+
  then show ?thesis by blast
qed

lemma fill_numbers_returns:
  assumes "\<forall>F k. finite F \<and> card F < length numbers + n \<longrightarrow> (\<exists>j\<ge>k. ds j \<notin> F \<and> ds j \<noteq> - 1)"
  shows "\<exists>ns. fill_numbers ds n numbers k = Some ns"
  using assms
proof (induction n arbitrary: numbers k)
  case 0
  then show ?case by simp
next
  case (Suc n)
  have "card (set numbers) < length numbers + Suc n"
    using card_length [of numbers] by simp
  then have "\<exists>j\<ge>k. ds j \<notin> set numbers \<and> ds j \<noteq> - 1" using Suc.prems by simp
  then obtain x k' where d: "draw_unique ds numbers k = Some (x, k')"
    using draw_unique_returns by blast
  have "\<exists>ns. fill_numbers ds n (numbers @ [x]) k' = Some ns"
    using Suc.prems by (intro Suc.IH) simp
  then show ?case using d by simp
qed

lemma generateSetOfNumbers_returns:
  assumes "0 < N" "fresh_supply (d sd) (nat N)"
  shows "\<exists>r. generateSetOfNumbers d N sd = Inr r \<and> mset r = mset [0..<nat N]"
proof -
  have "\<forall>F k. finite F \<and> card F < length [d sd 0] + (nat N - 1)
      \<longrightarrow> (\<exists>j\<ge>k. d sd j \<notin> F \<and> d sd j \<noteq> - 1)"
    using assms by (simp add: fresh_supply_def)
  then obtain ns where "fill_numbers (d sd) (nat N - 1) [d sd 0] 1 = Some ns"
    using fill_numbers_returns by blast
  then show ?thesis using assms(1) by (simp add: generateSetOfNumbers_def sort_indexes_perm)
qed

lemma fresh_supply_counter: "fresh_supply (\<lambda>k. int k) n"
  unfolding fresh_supply_def
proof (intro allI impI)
  fix F :: "int set" and k :: nat
  assume "finite F \<and> card F < n"
  then have "finite (nat ` F \<union> {..<k})" by simp
  then obtain j where j: "j \<notin> nat ` F \<union> {..<k}" using ex_new_if_finite infinite_UNIV_nat by blast
  have "int j \<notin> F"
  proof
    assume "int j \<in> F"
    then have "nat (int j) \<in> nat ` F" by (rule imageI)
    then show False using j by simp
  qed
  then show "\<exists>j\<ge>k. int j \<notin> F \<and> int j \<noteq> - 1" using j by (intro exI [of _ j]) auto
qed

lemma fill_numbers_counter:
  "fill_numbers (\<lambda>k. int k) n (map int [0..<k]) k = Some (map int [0..<k + n])"
proof (induction n arbitrary: k)
  case 0
  then show ?case by simp
next
  case (Suc n)
  have "draw_unique (\<lambda>k. int k) (map int [0..<k]) k = Some (int k, Suc k)"
    by (intro draw_unique_fresh) auto
  then show ?case using Suc.IH [of "Suc k"] by simp
qed

lemma generateSetOfNumbers_counter:
  assumes "0 < N"
  shows "generateSetOfNumbers (\<lambda>s k. int k) N sd = Inr [0..<nat N]"
proof -
  have "fill_numbers (\<lambda>k. int k) (nat N - 1) (map int [0..<1]) 1
      = Some (map int [0..<1 + (nat N - 1)])" by (rule fill_numbers_counter)
  then have f: "fill_numbers (\<lambda>k. int k) (nat N - 1) [0] 1 = Some (map int [0..<nat N])"
    using assms by simp
  have "sorted (map (\<lambda>i. map int [0..<nat N] ! i) [0..<nat N])"
    by (simp add: sorted_iff_nth_mono)
  then have "sort_indexes (map int [0..<nat N]) (nat N) = [0..<nat N]"
    unfolding sort_indexes_def by (rule sort_key_id_if_sorted)
  then show ?thesis using assms f by (simp add: generateSetOfNumbers_def)
qed

text \<open>
  C4. The claim holds for every count \<open>N \<ge> 1\<close> (lemmas \<open>generateSetOfNumbers_perm\<close> and
  \<open>generateSetOfNumbers_returns\<close>), but not for \<open>N = 0\<close>: there \<open>numbers\<close> is empty and line
  39 stores the first draw in \<open>numbers[0]\<close>, outside the vector, instead of returning the
  empty permutation.
\<close>

theorem generateSetOfNumbers_zero: "generateSetOfNumbers d 0 sd = Inl Out_of_range"
  by (simp add: generateSetOfNumbers_def)

text \<open>
  C9, as the code has it. There is no guard on the count: a positive \<open>N\<close> is never
  rejected, whatever its size, and the call either returns or retries forever. It returns
  (a permutation of \<open>0 .. N - 1\<close>) when the generator keeps supplying values: after any
  position comes a draw other than \<open>-1\<close> outside any given set of fewer than \<open>N\<close> values.
\<close>

theorem generateSetOfNumbers_no_guard:
  "(0 < N \<longrightarrow>
      generateSetOfNumbers d N sd = Inl No_return \<or> (\<exists>r. generateSetOfNumbers d N sd = Inr r))
   \<and> (0 < N \<and> fresh_supply (d sd) (nat N) \<longrightarrow>
      (\<exists>r. generateSetOfNumbers d N sd = Inr r \<and> mset r = mset [0..<nat N]))"
  using generateSetOfNumbers_outcomes [of N d sd] generateSetOfNumbers_returns [of N d sd]
  by blast

theorem generateSetOfNumbers_no_guard_witness:
  "(generateSetOfNumbers (\<lambda>s k. int k) 3 7 = Inl No_return
      \<or> (\<exists>r. generateSetOfNumbers (\<lambda>s k. int k) 3 7 = Inr r))
   \<and> (\<exists>r. generateSetOfNumbers (\<lambda>s k. int k) 3 7 = Inr r \<and> mset r = mset [0..<nat 3])"
proof -
  have h1: "(0::int) < 3" by simp
  have h2: "(0::int) < 3 \<and> fresh_supply ((\<lambda>s k. int k) (7::int)) (nat 3)"
    using fresh_supply_counter [of "nat 3"] by simp
  note t = generateSetOfNumbers_no_guard [of 3 "\<lambda>s k. int k" 7]
  show ?thesis
    by (intro conjI t [THEN conjunct1, THEN mp, OF h1] t [THEN conjunct2, THEN mp, OF h2])
qed

text \<open>
  The claim C9 as stated fails: at \<open>N = 2147483647\<close>, one below the \<open>2 ^ 31\<close> values of the
  draw space, with a generator that counts, the call is not rejected; it returns.
\<close>

theorem generateSetOfNumbers_large_counterexample:
  "generateSetOfNumbers (\<lambda>s k. int k) 2147483647 0 = Inr [0..<2147483647]"
  using generateSetOfNumbers_counter [of 2147483647 0] by simp

subsection \<open>The bisection\<close>

lemma filter_partition:
  "set (filter P xs) \<inter> set (filter (\<lambda>x. \<not> P x) xs) = {}"
  "set (filter P xs) \<union> set (filter (\<lambda>x. \<not> P x) xs) = set xs"
  "length (filter P xs) + length (filter (\<lambda>x. \<not> P x) xs) = length xs"
  by (auto simp: sum_length_filter_compl)

lemma repartition_exact:
  assumes "repartition r full = Inr (a, b)"
  shows "set a \<inter> set b = {}" "set a \<union> set b = set full" "length a + length b = length full"
proof -
  from assms have ab: "a = filter (\<lambda>i. r ! i > length full div 2) full"
    "b = filter (\<lambda>i. \<not> r ! i > length full div 2) full"
    by (auto simp: repartition_def split: if_splits)
  show "set a \<inter> set b = {}" unfolding ab by (rule filter_partition)
  show "set a \<union> set b = set full" unfolding ab by (rule filter_partition)
  show "length a + length b = length full" unfolding ab by (rule filter_partition)
qed

lemma count_above_upt: "length (filter (\<lambda>v. k < v) [0..<n]) = n - Suc k"
  by (induction n) auto

lemma count_above_perm:
  assumes "mset r = mset [0..<n]"
  shows "length (filter (\<lambda>i. k < r ! i) [0..<n]) = n - Suc k"
proof -
  have len: "length r = n" using assms by (rule perm_upt_facts)
  have "length (filter (\<lambda>i. k < r ! i) [0..<n])
      = length (filter (\<lambda>v. k < v) (map (\<lambda>i. r ! i) [0..<n]))"
    by (simp add: filter_map comp_def)
  also have "map (\<lambda>i. r ! i) [0..<n] = r" using map_nth [of r] len by simp
  also have "length (filter (\<lambda>v. k < v) r) = size (filter_mset (\<lambda>v. k < v) (mset r))"
    by (metis mset_filter size_mset)
  also have "\<dots> = length (filter (\<lambda>v. k < v) [0..<n])"
    unfolding assms by (metis mset_filter size_mset)
  also have "\<dots> = n - Suc k" by (rule count_above_upt)
  finally show ?thesis .
qed

lemma int_of_nat_pos:
  assumes "n < 2 ^ 32" "0 < int_of_nat n"
  shows "int_of_nat n = int n"
proof -
  have "n < 2 ^ 31"
  proof (rule ccontr)
    assume "\<not> n < 2 ^ 31"
    then have "2 ^ 31 \<le> n" by simp
    then have "int (2 ^ 31) \<le> int n" by (rule iffD2 [OF of_nat_le_iff])
    then have lo: "2147483648 \<le> int n" by simp
    have "int n < int (2 ^ 32)" using assms(1) by (rule iffD2 [OF of_nat_less_iff])
    then have hi: "int n < 4294967296" by simp
    have "int n + 2147483648 = int n - 2147483648 + 4294967296" by linarith
    then have "(int n + 2147483648) mod 4294967296
        = (int n - 2147483648 + 4294967296) mod 4294967296" by (rule arg_cong)
    also have "\<dots> = (int n - 2147483648) mod 4294967296" by (rule mod_add_self2)
    also have "\<dots> = int n - 2147483648" using lo hi by (intro mod_pos_pos_trivial) linarith+
    finally have "int_of_nat n = int n - 4294967296" by (simp add: int_of_nat_def)
    then show False using assms(2) hi by linarith
  qed
  then show ?thesis by (rule int_of_nat_id)
qed

lemma dentist_init_Inr:
  assumes "dentist_init E A = Inr (s0, g)"
  obtains r where
    "generateSetOfNumbers (draws E) (int_of_nat (markerSize A)) (seed A) = Inr r"
    "classify (chi2cdf E) (zScore A) (markerSize A) (groupingPvalue_thresh A) = Inr g"
    "idx s0 = filter (\<lambda>i. r ! i > markerSize A div 2) [0..<markerSize A]"
    "idx2 s0 = filter (\<lambda>i. \<not> r ! i > markerSize A div 2) [0..<markerSize A]"
    "fullIdx s0 = r"
    "res s0 = \<lparr>imputedZ = replicate (markerSize A) 0, rsq = replicate (markerSize A) 0,
               zScore_e = replicate (markerSize A) 0\<rparr>"
    "iterID s0 = replicate (markerSize A) 0"
  using assms by (auto simp: dentist_init_def split: sum.splits)

lemma dentist_init_partition:
  assumes init: "dentist_init E A = Inr (s0, g)" and m: "markerSize A < 2 ^ 32"
  shows "set (idx s0) \<inter> set (idx2 s0) = {}"
    "set (idx s0) \<union> set (idx2 s0) = set (fullIdx s0)"
    "length (idx s0) + length (idx2 s0) = length (fullIdx s0)"
    "length (idx2 s0) = markerSize A div 2 + 1"
    "length (idx s0) + (markerSize A div 2 + 1) = markerSize A"
proof -
  let ?M = "markerSize A"
  from init obtain r where r: "generateSetOfNumbers (draws E) (int_of_nat ?M) (seed A) = Inr r"
    and i1: "idx s0 = filter (\<lambda>i. r ! i > ?M div 2) [0..<?M]"
    and i2: "idx2 s0 = filter (\<lambda>i. \<not> r ! i > ?M div 2) [0..<?M]"
    and f: "fullIdx s0 = r" by (rule dentist_init_Inr)
  have pos: "0 < int_of_nat ?M" using r by (rule generateSetOfNumbers_perm)
  then have eq: "int_of_nat ?M = int ?M" using m by (intro int_of_nat_pos)
  then have M0: "0 < ?M" using pos by simp
  have perm: "mset r = mset [0..<?M]" using generateSetOfNumbers_perm(2) [OF r] eq by simp
  note pf = perm_upt_facts [OF perm]
  show "set (idx s0) \<inter> set (idx2 s0) = {}" unfolding i1 i2 by (rule filter_partition)
  show "set (idx s0) \<union> set (idx2 s0) = set (fullIdx s0)"
    unfolding i1 i2 f filter_partition pf by simp
  show "length (idx s0) + length (idx2 s0) = length (fullIdx s0)"
    unfolding i1 i2 f filter_partition pf by simp
  have a: "length (idx s0) = ?M - Suc (?M div 2)" unfolding i1 using perm by (rule count_above_perm)
  have "length (idx s0) + length (idx2 s0) = ?M" unfolding i1 i2 filter_partition by simp
  moreover have "Suc (?M div 2) \<le> ?M" using M0 by presburger
  ultimately show "length (idx2 s0) = ?M div 2 + 1" "length (idx s0) + (?M div 2 + 1) = ?M"
    using a by simp_all
qed

lemma dentist_round_Inr:
  assumes "dentist_round E A g t s = Inr s'"
  obtains r1 thr th1 th0 r2 tmp ids full randOrder where
    "oneIteration (eig_sym E) (LDmat A) (idx s) (idx2 s) (zScore A) (res s) (nSample A) (propSVD A)
       = Inr r1"
    "list_all (\<lambda>j. j < length (zScore_e r1) \<and> j < length g) (idx2 s)"
    "round_thresholds (vec_not E) (target_diff r1 (idx2 s)) (target_grouping g (idx2 s))
       = Inr (thr, th1, th0)"
    "oneIteration (eig_sym E) (LDmat A) (idx s)
       (qc_targets (idx2 s) (target_diff r1 (idx2 s)) (target_grouping g (idx2 s)) th1 th0)
       (zScore A) r1 (nSample A) (propSVD A) = Inr r2"
    "survive g (zScore_e r2) th1 th0 (fullIdx s) [] (iterID s) = Inr (tmp, ids)"
    "next_active (gcControl A) (chisq E) (zScore_e r2) (pValueThreshold A) (fullIdx s) tmp
       = Inr full"
    "generateSetOfNumbers (draws E) (int_of_nat (length full)) (20000 + int t * 20000)
       = Inr randOrder"
    "repartition randOrder full = Inr (idx s', idx2 s')"
    "fullIdx s' = full" "res s' = r2" "iterID s' = ids"
  using assms unfolding dentist_round_def
  by (auto split: sum.splits prod.splits if_splits)

lemma dentist_round_partition:
  assumes "dentist_round E A g t s = Inr s'"
  shows "set (idx s') \<inter> set (idx2 s') = {}"
    "set (idx s') \<union> set (idx2 s') = set (fullIdx s')"
    "length (idx s') + length (idx2 s') = length (fullIdx s')"
proof -
  from assms obtain full randOrder where
    "repartition randOrder full = Inr (idx s', idx2 s')" "fullIdx s' = full"
    by (rule dentist_round_Inr)
  then show "set (idx s') \<inter> set (idx2 s') = {}"
    "set (idx s') \<union> set (idx2 s') = set (fullIdx s')"
    "length (idx s') + length (idx2 s') = length (fullIdx s')"
    using repartition_exact [of randOrder full "idx s'" "idx2 s'"] by simp_all
qed

subsection \<open>A round of the example\<close>

lemma replicate_5: "replicate 5 x = [x, x, x, x, x]"
  by (simp add: numeral_eq_Suc)

lemma length_5: "length [a, b, c, d, e] = 5"
  by simp

lemma list_update_numeral: "(x # xs)[numeral k := v] = x # xs[pred_numeral k := v]"
  by (simp add: numeral_eq_Suc)

lemma ex_classify: "classify (\<lambda>x k. 0) [5 / 2, 0, 0, 5, 0] 5 (1 / 10) = Inr [0, 0, 0, 0, 0]"
proof -
  have "log 10 (1 / 10) = - 1" by (simp add: log_divide)
  then show ?thesis
    by (simp add: classify_def minusLogPvalueChisq2_def upt_rec [of _ "numeral n" for n])
qed

lemma ex_gen5: "generateSetOfNumbers (\<lambda>s k. int k) (int_of_nat 5) sd = Inr [0, 1, 2, 3, 4]"
  using generateSetOfNumbers_counter [of 5 sd]
  by (simp add: int_of_nat_def upt_rec [of _ "numeral n" for n])

lemma ex_init: "dentist_init ex_env ex_args = Inr (ex_s0, [0, 0, 0, 0, 0])"
proof -
  have sel: "draws ex_env = (\<lambda>s k. int k)" "chi2cdf ex_env = (\<lambda>x k. 0)"
    "markerSize ex_args = 5" "seed ex_args = 1" "zScore ex_args = [5 / 2, 0, 0, 5, 0]"
    "groupingPvalue_thresh ex_args = 1 / 10"
    by (simp_all add: ex_env_def ex_args_def)
  show ?thesis
    unfolding dentist_init_def sel ex_gen5 ex_classify sum.case replicate_5
    by (simp add: ex_s0_def ex_out0_def replicate_5 upt_rec [of _ "numeral n" for n])
qed

lemma ex_oneIteration_again:
  "oneIteration ex_eig ex_LD [3, 4] [0, 1, 2] [5 / 2, 0, 0, 5, 0] ex_out1 100 1 = Inr ex_out1"
  unfolding oneIteration_def ex_impute
  by (simp add: ex_out1_def mat_at_def ex_LD_def list_update_numeral)

lemma ex_thresholds: "round_thresholds complement_labels [0, 0, 0] [0, 0, 0] = Inr (0, 0, 0)"
proof -
  have "length (sort [0, 0, 0 :: real]) = 3" by simp
  then have "getQuantile [0, 0, 0] (fl64 (995 / 1000)) = Inr 0"
    unfolding getQuantile_def Let_def by (simp only: quantile_pos_3) simp
  then show ?thesis
    by (simp add: round_thresholds_def getQuantile2_def complement_labels_def)
qed

lemma ex_target_diff: "target_diff ex_out1 [0, 1, 2] = [0, 0, 0]"
  by (simp add: target_diff_def ex_out1_def)

lemma ex_target_grouping: "target_grouping [0, 0, 0, 0, 0] [0, 1, 2] = [0, 0, 0]"
  by (simp add: target_grouping_def)

lemma ex_qc_targets: "qc_targets [0, 1, 2] [0, 0, 0] [0, 0, 0] 0 0 = [0, 1, 2]"
  by (simp add: qc_targets_def keep_def upt_rec [of _ "numeral n" for n])

lemma ex_survive:
  "survive [0, 0, 0, 0, 0] (zScore_e ex_out1) 0 0 [0, 1, 2, 3, 4] [] [0, 0, 0, 0, 0]
     = Inr ([0, 1, 2, 3, 4], [1, 1, 1, 1, 1])"
  by (simp add: ex_out1_def keep_def list_update_numeral)

lemma ex_repartition: "repartition [0, 1, 2, 3, 4] [0, 1, 2, 3, 4] = Inr ([3, 4], [0, 1, 2])"
  unfolding repartition_def length_5 by simp

lemma ex_round: "dentist_round ex_env ex_args [0, 0, 0, 0, 0] 0 ex_s0 = Inr ex_s1"
proof -
  have sel: "eig_sym ex_env = ex_eig" "vec_not ex_env = complement_labels"
    "draws ex_env = (\<lambda>s k. int k)" "chisq ex_env = [1]"
    "LDmat ex_args = ex_LD" "zScore ex_args = [5 / 2, 0, 0, 5, 0]" "nSample ex_args = 100"
    "propSVD ex_args = 1" "gcControl ex_args = False" "pValueThreshold ex_args = 1 / 20"
    "idx ex_s0 = [3, 4]" "idx2 ex_s0 = [0, 1, 2]" "fullIdx ex_s0 = [0, 1, 2, 3, 4]"
    "res ex_s0 = ex_out0" "iterID ex_s0 = [0, 0, 0, 0, 0]"
    by (simp_all add: ex_env_def ex_args_def ex_s0_def)
  have o1: "oneIteration ex_eig ex_LD [3, 4] [0, 1, 2] [5 / 2, 0, 0, 5, 0] ex_out0 100 1
      = Inr ex_out1" using ex_oneIteration by (simp add: ex_out1_def)
  have ok: "list_all (\<lambda>j. j < length (zScore_e ex_out1) \<and> j < length [0, 0, 0, 0, 0 :: nat])
      [0, 1, 2] = True" by (simp add: ex_out1_def)
  show ?thesis
    unfolding dentist_round_def sel o1 sum.case ok not_True_eq_False if_False
      ex_target_diff ex_target_grouping ex_thresholds prod.case ex_qc_targets
      ex_oneIteration_again ex_survive next_active_def length_5 ex_gen5 ex_repartition
      ex_s1_def
    by (simp add: ex_out1_def)
qed

lemma ex4_init: "dentist_init ex_env ex_args4 = Inr (ex_s4, [0, 0, 0, 0])"
proof -
  have g: "generateSetOfNumbers (\<lambda>s k. int k) (int_of_nat 4) 1 = Inr [0, 1, 2, 3]"
    using generateSetOfNumbers_counter [of 4 1]
    by (simp add: int_of_nat_def upt_rec [of _ "numeral n" for n])
  have "log 10 (1 / 10) = - 1" by (simp add: log_divide)
  then have c: "classify (\<lambda>x k. 0) [0, 0, 0, 0] 4 (1 / 10) = Inr [0, 0, 0, 0]"
    by (simp add: classify_def minusLogPvalueChisq2_def upt_rec [of _ "numeral n" for n])
  have r: "replicate 4 x = [x, x, x, x]" for x :: 'a by (simp add: numeral_eq_Suc)
  show ?thesis
    unfolding dentist_init_def
    by (simp add: ex_env_def ex_args_def ex_args4_def ex_s4_def g c r
        upt_rec [of _ "numeral n" for n])
qed

text \<open>
  C1, as the code has it. After the initial bisection, and after every round that
  \<open>dentist\<close> completes, \<open>idx\<close> and \<open>idx2\<close> partition the active set \<open>fullIdx\<close> exactly:
  they are disjoint, their union is the active set, and their lengths add up to its
  length. The initial bisection of \<open>M\<close> markers (a \<open>uint\<close>) puts \<open>M div 2 + 1\<close> markers in
  \<open>idx2\<close> and the other \<open>M - M div 2 - 1\<close> in \<open>idx\<close>: the target set is the larger one, by
  \<open>1\<close> when \<open>M\<close> is odd and by \<open>2\<close> when \<open>M\<close> is even.
\<close>

theorem bisection_partition:
  "(dentist_init E A = Inr (s0, g) \<and> markerSize A < 2 ^ 32 \<longrightarrow>
      set (idx s0) \<inter> set (idx2 s0) = {}
      \<and> set (idx s0) \<union> set (idx2 s0) = set (fullIdx s0)
      \<and> length (idx s0) + length (idx2 s0) = length (fullIdx s0)
      \<and> length (idx2 s0) = markerSize A div 2 + 1
      \<and> length (idx s0) + (markerSize A div 2 + 1) = markerSize A
      \<and> length (idx s0) < length (idx2 s0)
      \<and> length (idx2 s0) \<le> length (idx s0) + 2)
   \<and> (dentist_round E A g t s = Inr s' \<longrightarrow>
      set (idx s') \<inter> set (idx2 s') = {}
      \<and> set (idx s') \<union> set (idx2 s') = set (fullIdx s')
      \<and> length (idx s') + length (idx2 s') = length (fullIdx s'))"
proof (intro conjI impI)
  assume a: "dentist_init E A = Inr (s0, g) \<and> markerSize A < 2 ^ 32"
  then have i: "dentist_init E A = Inr (s0, g)" and m: "markerSize A < 2 ^ 32" by simp_all
  note p = dentist_init_partition [OF i m]
  show "set (idx s0) \<inter> set (idx2 s0) = {}" by (rule p)
  show "set (idx s0) \<union> set (idx2 s0) = set (fullIdx s0)" by (rule p)
  show "length (idx s0) + length (idx2 s0) = length (fullIdx s0)" by (rule p)
  show "length (idx2 s0) = markerSize A div 2 + 1" by (rule p)
  show "length (idx s0) + (markerSize A div 2 + 1) = markerSize A" by (rule p)
  show "length (idx s0) < length (idx2 s0)" using p(4,5) by presburger
  show "length (idx2 s0) \<le> length (idx s0) + 2" using p(4,5) by presburger
next
  assume a: "dentist_round E A g t s = Inr s'"
  show "set (idx s') \<inter> set (idx2 s') = {}" using a by (rule dentist_round_partition)
  show "set (idx s') \<union> set (idx2 s') = set (fullIdx s')" using a by (rule dentist_round_partition)
  show "length (idx s') + length (idx2 s') = length (fullIdx s')"
    using a by (rule dentist_round_partition)
qed

theorem bisection_partition_witness:
  "set (idx ex_s0) \<inter> set (idx2 ex_s0) = {}
   \<and> set (idx ex_s0) \<union> set (idx2 ex_s0) = set (fullIdx ex_s0)
   \<and> length (idx ex_s0) + length (idx2 ex_s0) = length (fullIdx ex_s0)
   \<and> length (idx2 ex_s0) = 3 \<and> length (idx ex_s0) = 2
   \<and> set (idx ex_s1) \<inter> set (idx2 ex_s1) = {}
   \<and> set (idx ex_s1) \<union> set (idx2 ex_s1) = set (fullIdx ex_s1)
   \<and> length (idx ex_s1) + length (idx2 ex_s1) = length (fullIdx ex_s1)"
proof -
  have h1: "dentist_init ex_env ex_args = Inr (ex_s0, [0, 0, 0, 0, 0])
      \<and> markerSize ex_args < 2 ^ 32"
    using ex_init by (simp add: ex_args_def)
  have h2: "dentist_round ex_env ex_args [0, 0, 0, 0, 0] 0 ex_s0 = Inr ex_s1" by (rule ex_round)
  note t = bisection_partition [of ex_env ex_args ex_s0 "[0, 0, 0, 0, 0]" 0 ex_s0 ex_s1]
  note a = t [THEN conjunct1, THEN mp, OF h1]
  note b = t [THEN conjunct2, THEN mp, OF h2]
  have m: "markerSize ex_args div 2 + 1 = 3" by (simp add: ex_args_def)
  have "length (idx2 ex_s0) = 3" using a m by simp
  moreover have "length (idx ex_s0) = 2" using a m by (simp add: ex_args_def)
  ultimately show ?thesis using a b by simp
qed

text \<open>
  The claim C1 as stated fails in its balance: with four markers the initial bisection
  gives one reference marker and three target markers.
\<close>

theorem bisection_balance_counterexample:
  "dentist_init ex_env
     (ex_args\<lparr>LDmat := \<lparr>n_rows = 4, n_cols = 4, elem = (\<lambda>i j. if i = j then 1 else 0)\<rparr>,
              markerSize := 4, zScore := [0, 0, 0, 0]\<rparr>)
   = Inr (\<lparr>idx = [3], idx2 = [0, 1, 2], fullIdx = [0, 1, 2, 3],
           res = \<lparr>imputedZ = [0, 0, 0, 0], rsq = [0, 0, 0, 0], zScore_e = [0, 0, 0, 0]\<rparr>,
           iterID = [0, 0, 0, 0]\<rparr>,
          [0, 0, 0, 0])"
  using ex4_init by (simp add: ex_args4_def ex_s4_def)

subsection \<open>What a round keeps\<close>

lemma survive_step:
  assumes "survive g ze th1 th0 (i # rest) tmp ids = Inr (tmp', ids')"
  shows "(keep (g ! i) \<bar>ze ! i\<bar> th1 th0 \<and> i < length ids
          \<and> survive g ze th1 th0 rest (tmp @ [i]) (ids[i := ids ! i + 1]) = Inr (tmp', ids'))
       \<or> (\<not> keep (g ! i) \<bar>ze ! i\<bar> th1 th0
          \<and> survive g ze th1 th0 rest tmp ids = Inr (tmp', ids'))"
  using assms by (auto split: if_splits)

lemma survive_list:
  assumes "survive g ze th1 th0 full tmp ids = Inr (tmp', ids')"
  shows "tmp' = tmp @ filter (\<lambda>i. keep (g ! i) \<bar>ze ! i\<bar> th1 th0) full"
  using assms
proof (induction full arbitrary: tmp ids)
  case Nil
  then show ?case by simp
next
  case (Cons i rest)
  from survive_step [OF Cons.prems] show ?case
  proof (elim disjE conjE)
    assume k: "keep (g ! i) \<bar>ze ! i\<bar> th1 th0"
      and rec: "survive g ze th1 th0 rest (tmp @ [i]) (ids[i := ids ! i + 1]) = Inr (tmp', ids')"
    have "tmp' = (tmp @ [i]) @ filter (\<lambda>i. keep (g ! i) \<bar>ze ! i\<bar> th1 th0) rest"
      using rec by (rule Cons.IH)
    then show ?thesis using k by simp
  next
    assume k: "\<not> keep (g ! i) \<bar>ze ! i\<bar> th1 th0"
      and rec: "survive g ze th1 th0 rest tmp ids = Inr (tmp', ids')"
    have "tmp' = tmp @ filter (\<lambda>i. keep (g ! i) \<bar>ze ! i\<bar> th1 th0) rest"
      using rec by (rule Cons.IH)
    then show ?thesis using k by simp
  qed
qed

lemma survive_counts:
  assumes "survive g ze th1 th0 full tmp ids = Inr (tmp', ids')"
  shows "length ids' = length ids \<and> (\<forall>k<length ids. ids ! k \<le> ids' ! k)"
  using assms
proof (induction full arbitrary: tmp ids)
  case Nil
  then show ?case by simp
next
  case (Cons i rest)
  from survive_step [OF Cons.prems] show ?case
  proof (elim disjE conjE)
    assume i: "i < length ids"
      and rec: "survive g ze th1 th0 rest (tmp @ [i]) (ids[i := ids ! i + 1]) = Inr (tmp', ids')"
    have ih: "length ids' = length (ids[i := ids ! i + 1])
        \<and> (\<forall>k<length (ids[i := ids ! i + 1]). ids[i := ids ! i + 1] ! k \<le> ids' ! k)"
      using rec by (rule Cons.IH)
    have "ids ! k \<le> ids' ! k" if k: "k < length ids" for k
    proof -
      have "ids ! k \<le> ids[i := ids ! i + 1] ! k" using k by (cases "k = i") simp_all
      also have "\<dots> \<le> ids' ! k" using ih k by simp
      finally show ?thesis .
    qed
    then show ?thesis using ih by simp
  next
    assume "survive g ze th1 th0 rest tmp ids = Inr (tmp', ids')"
    then show ?thesis by (rule Cons.IH)
  qed
qed

lemma round_iterID_mono:
  assumes "dentist_round E A g t s = Inr s'"
  shows "length (iterID s') = length (iterID s)
     \<and> (\<forall>i<length (iterID s). iterID s ! i \<le> iterID s' ! i)"
  using assms
proof (rule dentist_round_Inr)
  fix r2 th1 th0 tmp ids
  assume sv: "survive g (zScore_e r2) th1 th0 (fullIdx s) [] (iterID s) = Inr (tmp, ids)"
    and i: "iterID s' = ids"
  show ?thesis unfolding i using sv by (rule survive_counts)
qed

lemma round_active_shrinks:
  assumes "dentist_round E A g t s = Inr s'" and gc: "\<not> gcControl A"
  shows "length (fullIdx s') \<le> length (fullIdx s) \<and> set (fullIdx s') \<subseteq> set (fullIdx s)"
  using assms(1)
proof (rule dentist_round_Inr)
  fix r2 th1 th0 tmp ids full
  assume sv: "survive g (zScore_e r2) th1 th0 (fullIdx s) [] (iterID s) = Inr (tmp, ids)"
    and na: "next_active (gcControl A) (chisq E) (zScore_e r2) (pValueThreshold A) (fullIdx s) tmp
       = Inr full"
    and f: "fullIdx s' = full"
  have "full = tmp" using na gc by (simp add: next_active_def)
  then have "fullIdx s' = filter (\<lambda>i. keep (g ! i) \<bar>zScore_e r2 ! i\<bar> th1 th0) (fullIdx s)"
    using survive_list [OF sv] f by simp
  then show ?thesis by simp
qed

lemma ex_gen10:
  "generateSetOfNumbers (\<lambda>s k. int k) (int_of_nat 10) sd = Inr [0, 1, 2, 3, 4, 5, 6, 7, 8, 9]"
  using generateSetOfNumbers_counter [of 10 sd]
  by (simp add: int_of_nat_def upt_rec [of _ "numeral n" for n])

lemma ex_gc_retain:
  "gc_retain [1] (zScore_e ex_out1) (1 / 20) [0, 1, 2, 3, 4] [0, 1, 2, 3, 4]
     = Inr [0, 1, 2, 3, 4, 0, 1, 2, 3, 4]"
  by (simp add: gc_retain_def ex_out1_def)

lemma length_10: "length [a, b, c, d, e, a', b', c', d', e'] = 10"
  by simp

lemma ex_repartition_gc:
  "repartition [0, 1, 2, 3, 4, 5, 6, 7, 8, 9] [0, 1, 2, 3, 4, 0, 1, 2, 3, 4]
     = Inr ([], [0, 1, 2, 3, 4, 0, 1, 2, 3, 4])"
  unfolding repartition_def length_10 by simp

text \<open>
  C5. The survival counts never decrease (lemma \<open>round_iterID_mono\<close>), and without
  genomic control the active set only shrinks (lemma \<open>round_active_shrinks\<close>). With
  \<open>gcControl\<close> the claim fails on the code: lines 266 to 271 push the markers that pass the
  genomic-control test onto the list that already holds the survivors, so a marker that
  passes both tests is in the next active set twice. In the example all five markers
  pass both, and the active set grows from five entries to ten.
\<close>

theorem active_set_grows_with_gcControl:
  "dentist_round ex_env (ex_args\<lparr>gcControl := True\<rparr>) [0, 0, 0, 0, 0] 0 ex_s0
     = Inr \<lparr>idx = [], idx2 = [0, 1, 2, 3, 4, 0, 1, 2, 3, 4],
            fullIdx = [0, 1, 2, 3, 4, 0, 1, 2, 3, 4], res = ex_out1,
            iterID = [1, 1, 1, 1, 1]\<rparr>"
proof -
  let ?A = "ex_args\<lparr>gcControl := True\<rparr>"
  have sel: "eig_sym ex_env = ex_eig" "vec_not ex_env = complement_labels"
    "draws ex_env = (\<lambda>s k. int k)" "chisq ex_env = [1]"
    "LDmat ?A = ex_LD" "zScore ?A = [5 / 2, 0, 0, 5, 0]" "nSample ?A = 100"
    "propSVD ?A = 1" "gcControl ?A = True" "pValueThreshold ?A = 1 / 20"
    "idx ex_s0 = [3, 4]" "idx2 ex_s0 = [0, 1, 2]" "fullIdx ex_s0 = [0, 1, 2, 3, 4]"
    "res ex_s0 = ex_out0" "iterID ex_s0 = [0, 0, 0, 0, 0]"
    by (simp_all add: ex_env_def ex_args_def ex_s0_def)
  have o1: "oneIteration ex_eig ex_LD [3, 4] [0, 1, 2] [5 / 2, 0, 0, 5, 0] ex_out0 100 1
      = Inr ex_out1" using ex_oneIteration by (simp add: ex_out1_def)
  show ?thesis
    unfolding dentist_round_def sel o1 sum.case
      ex_target_diff ex_target_grouping ex_thresholds prod.case ex_qc_targets
      ex_oneIteration_again ex_survive next_active_def if_True ex_gc_retain length_10
      ex_gen10 ex_repartition_gc
    by (simp add: ex_out1_def)
qed

subsection \<open>What a round writes\<close>

lemma oneIteration_frame:
  assumes "oneIteration eig L rs ts zs s nS p = Inr s'"
  shows "length (imputedZ s') = length (imputedZ s) \<and> length (rsq s') = length (rsq s)
     \<and> length (zScore_e s') = length (zScore_e s)
     \<and> (\<forall>k. k \<notin> set ts \<longrightarrow> imputedZ s' ! k = imputedZ s ! k \<and> rsq s' ! k = rsq s ! k
            \<and> zScore_e s' ! k = zScore_e s ! k)"
  using assms
proof (rule oneIteration_Inr)
  fix imp r
  assume "scatter L zs imp r ts 0 s = Inr s'"
  then show ?thesis by (rule scatter_frame)
qed

lemma qc_targets_subset: "set (qc_targets tgt (target_diff r tgt) grp th1 th0) \<subseteq> set tgt"
  by (auto simp: qc_targets_def target_diff_def)

lemma round_frame:
  assumes "dentist_round E A g t s = Inr s'" and j: "j \<notin> set (idx2 s)"
  shows "imputedZ (res s') ! j = imputedZ (res s) ! j \<and> rsq (res s') ! j = rsq (res s) ! j
     \<and> zScore_e (res s') ! j = zScore_e (res s) ! j"
  using assms(1)
proof (rule dentist_round_Inr)
  fix r1 th1 th0 r2
  assume o1: "oneIteration (eig_sym E) (LDmat A) (idx s) (idx2 s) (zScore A) (res s)
      (nSample A) (propSVD A) = Inr r1"
    and o2: "oneIteration (eig_sym E) (LDmat A) (idx s)
       (qc_targets (idx2 s) (target_diff r1 (idx2 s)) (target_grouping g (idx2 s)) th1 th0)
       (zScore A) r1 (nSample A) (propSVD A) = Inr r2"
    and r: "res s' = r2"
  have j2: "j \<notin> set (qc_targets (idx2 s) (target_diff r1 (idx2 s))
      (target_grouping g (idx2 s)) th1 th0)"
    using j qc_targets_subset by blast
  show ?thesis
    unfolding r using oneIteration_frame [OF o1] oneIteration_frame [OF o2] j j2 by simp
qed

lemma loop_frame:
  assumes "dentist_loop E A g t n s = Inr sf" "dentist_rounds E A g t n s = Inr ss"
    and "\<forall>x\<in>set ss. j \<notin> set (idx2 x)"
  shows "imputedZ (res sf) ! j = imputedZ (res s) ! j \<and> rsq (res sf) ! j = rsq (res s) ! j
     \<and> zScore_e (res sf) ! j = zScore_e (res s) ! j"
  using assms
proof (induction n arbitrary: t s ss)
  case 0
  then show ?case by simp
next
  case (Suc n)
  from Suc.prems(1) obtain s1 where r: "dentist_round E A g t s = Inr s1"
    and l: "dentist_loop E A g (Suc t) n s1 = Inr sf"
    by (auto split: sum.splits)
  from Suc.prems(2) r obtain ss1 where t: "dentist_rounds E A g (Suc t) n s1 = Inr ss1"
    and ss: "ss = s # ss1"
    by (auto split: sum.splits)
  have j: "j \<notin> set (idx2 s)" and rest: "\<forall>x\<in>set ss1. j \<notin> set (idx2 x)"
    using Suc.prems(3) ss by simp_all
  show ?case using Suc.IH [OF l t rest] round_frame [OF r j] by simp
qed

lemma loop_rounds:
  assumes "dentist_loop E A g t n s = Inr sf"
  shows "\<exists>ss. dentist_rounds E A g t n s = Inr ss \<and> length ss = n"
  using assms
proof (induction n arbitrary: t s)
  case 0
  then show ?case by simp
next
  case (Suc n)
  from Suc.prems obtain s1 where r: "dentist_round E A g t s = Inr s1"
    and l: "dentist_loop E A g (Suc t) n s1 = Inr sf"
    by (auto split: sum.splits)
  from Suc.IH [OF l] show ?case using r by auto
qed

lemma dentist_Inr:
  assumes "dentist E A = Inr r"
  obtains s0 g sf where "dentist_init E A = Inr (s0, g)"
    "dentist_loop E A g 0 (nat (nIter A)) s0 = Inr sf"
    "out_imputedZ r = imputedZ (res sf)" "out_rsq r = rsq (res sf)"
    "out_zScore_e r = zScore_e (res sf)" "out_iterID r = iterID sf" "out_groupingGWAS r = g"
  using assms by (auto simp: dentist_def split: sum.splits prod.splits)

lemma ex_dentist:
  "dentist ex_env ex_args
     = Inr \<lparr>out_imputedZ = [5 / 2, 0, 0, 0, 0], out_rsq = [1 / 4, 0, 0, 0, 0],
            out_zScore_e = [0, 0, 0, 0, 0], out_iterID = [1, 1, 1, 1, 1],
            out_groupingGWAS = [0, 0, 0, 0, 0]\<rparr>"
proof -
  have n: "nat (nIter ex_args) = Suc 0" by (simp add: ex_args_def)
  show ?thesis
    unfolding dentist_def ex_init sum.case prod.case n dentist_loop.simps ex_round
    by (simp add: ex_s1_def ex_out1_def)
qed

lemma ex_rounds: "dentist_rounds ex_env ex_args [0, 0, 0, 0, 0] 0 (nat (nIter ex_args)) ex_s0 = Inr [ex_s0]"
proof -
  have n: "nat (nIter ex_args) = Suc 0" by (simp add: ex_args_def)
  show ?thesis unfolding n dentist_rounds.simps ex_round by simp
qed

text \<open>
  C8. \<open>oneIteration\<close> changes \<open>imputedZ\<close>, \<open>rsq\<close> and \<open>zScore_e\<close> only at the markers of its
  target set. Hence in what \<open>dentist\<close> returns, a marker that was in the target set \<open>idx2\<close>
  of none of the rounds (\<open>dentist_rounds\<close> lists the states in which they start) still has
  the initial \<open>0\<close> in the three vectors.
\<close>

theorem outputs_frame:
  "(oneIteration eig L rs ts zs s nS p = Inr s' \<and> j \<notin> set ts \<longrightarrow>
      imputedZ s' ! j = imputedZ s ! j \<and> rsq s' ! j = rsq s ! j
      \<and> zScore_e s' ! j = zScore_e s ! j)
   \<and> (dentist E A = Inr r \<longrightarrow>
      (\<exists>s0 g ss. dentist_init E A = Inr (s0, g)
         \<and> dentist_rounds E A g 0 (nat (nIter A)) s0 = Inr ss \<and> length ss = nat (nIter A)))
   \<and> (dentist E A = Inr r \<and> dentist_init E A = Inr (s0, g)
       \<and> dentist_rounds E A g 0 (nat (nIter A)) s0 = Inr ss
       \<and> j < markerSize A \<and> (\<forall>x\<in>set ss. j \<notin> set (idx2 x)) \<longrightarrow>
      out_imputedZ r ! j = 0 \<and> out_rsq r ! j = 0 \<and> out_zScore_e r ! j = 0)"
proof -
  have p1: "oneIteration eig L rs ts zs s nS p = Inr s' \<and> j \<notin> set ts \<longrightarrow>
      imputedZ s' ! j = imputedZ s ! j \<and> rsq s' ! j = rsq s ! j
      \<and> zScore_e s' ! j = zScore_e s ! j"
    using oneIteration_frame [of eig L rs ts zs s nS p s'] by simp
  have p2: "dentist E A = Inr r \<longrightarrow>
      (\<exists>s0 g ss. dentist_init E A = Inr (s0, g)
         \<and> dentist_rounds E A g 0 (nat (nIter A)) s0 = Inr ss \<and> length ss = nat (nIter A))"
  proof
    assume "dentist E A = Inr r"
    then show "\<exists>s0 g ss. dentist_init E A = Inr (s0, g)
         \<and> dentist_rounds E A g 0 (nat (nIter A)) s0 = Inr ss \<and> length ss = nat (nIter A)"
    proof (rule dentist_Inr)
      fix s0 g sf
      assume i: "dentist_init E A = Inr (s0, g)"
        and l: "dentist_loop E A g 0 (nat (nIter A)) s0 = Inr sf"
      show ?thesis using i loop_rounds [OF l] by blast
    qed
  qed
  have p3: "dentist E A = Inr r \<and> dentist_init E A = Inr (s0, g)
       \<and> dentist_rounds E A g 0 (nat (nIter A)) s0 = Inr ss
       \<and> j < markerSize A \<and> (\<forall>x\<in>set ss. j \<notin> set (idx2 x)) \<longrightarrow>
      out_imputedZ r ! j = 0 \<and> out_rsq r ! j = 0 \<and> out_zScore_e r ! j = 0"
  proof
    assume a: "dentist E A = Inr r \<and> dentist_init E A = Inr (s0, g)
       \<and> dentist_rounds E A g 0 (nat (nIter A)) s0 = Inr ss
       \<and> j < markerSize A \<and> (\<forall>x\<in>set ss. j \<notin> set (idx2 x))"
    then have d: "dentist E A = Inr r" by simp
    from d show "out_imputedZ r ! j = 0 \<and> out_rsq r ! j = 0 \<and> out_zScore_e r ! j = 0"
    proof (rule dentist_Inr)
      fix s0' g' sf
      assume i: "dentist_init E A = Inr (s0', g')"
        and l: "dentist_loop E A g' 0 (nat (nIter A)) s0' = Inr sf"
        and o: "out_imputedZ r = imputedZ (res sf)" "out_rsq r = rsq (res sf)"
          "out_zScore_e r = zScore_e (res sf)"
      have eq: "s0' = s0" "g' = g" using i a by simp_all
      have i0: "dentist_init E A = Inr (s0, g)" using a by simp
      have z: "res s0 = \<lparr>imputedZ = replicate (markerSize A) 0,
          rsq = replicate (markerSize A) 0, zScore_e = replicate (markerSize A) 0\<rparr>"
        using i0 by (rule dentist_init_Inr)
      have l0: "dentist_loop E A g 0 (nat (nIter A)) s0 = Inr sf" using l unfolding eq .
      have t0: "dentist_rounds E A g 0 (nat (nIter A)) s0 = Inr ss" using a by simp
      have n0: "\<forall>x\<in>set ss. j \<notin> set (idx2 x)" using a by simp
      have "imputedZ (res sf) ! j = imputedZ (res s0) ! j \<and> rsq (res sf) ! j = rsq (res s0) ! j
          \<and> zScore_e (res sf) ! j = zScore_e (res s0) ! j"
        using l0 t0 n0 by (rule loop_frame)
      then show ?thesis using a unfolding o z by simp
    qed
  qed
  show ?thesis by (intro conjI p1 p2 p3)
qed

theorem outputs_frame_witness:
  "imputedZ ex_out1 ! 3 = imputedZ ex_out0 ! 3 \<and> rsq ex_out1 ! 3 = rsq ex_out0 ! 3
   \<and> zScore_e ex_out1 ! 3 = zScore_e ex_out0 ! 3
   \<and> (\<exists>s0 g ss. dentist_init ex_env ex_args = Inr (s0, g)
        \<and> dentist_rounds ex_env ex_args g 0 (nat (nIter ex_args)) s0 = Inr ss
        \<and> length ss = nat (nIter ex_args))
   \<and> [5 / 2, 0, 0, 0, 0 :: real] ! 3 = 0 \<and> [1 / 4, 0, 0, 0, 0 :: real] ! 3 = 0
   \<and> [0, 0, 0, 0, 0 :: real] ! 3 = 0"
proof -
  let ?r = "\<lparr>out_imputedZ = [5 / 2, 0, 0, 0, 0], out_rsq = [1 / 4, 0, 0, 0, 0],
            out_zScore_e = [0, 0, 0, 0, 0 :: real], out_iterID = [1, 1, 1, 1, 1 :: int],
            out_groupingGWAS = [0, 0, 0, 0, 0 :: nat]\<rparr>"
  note t = outputs_frame [of ex_eig ex_LD "[3, 4]" "[0, 1, 2]" "[5 / 2, 0, 0, 5, 0]" ex_out0
      100 1 ex_out1 3 ex_env ex_args ?r ex_s0 "[0, 0, 0, 0, 0]" "[ex_s0]"]
  have h1: "oneIteration ex_eig ex_LD [3, 4] [0, 1, 2] [5 / 2, 0, 0, 5, 0] ex_out0 100 1
        = Inr ex_out1 \<and> 3 \<notin> set [0, 1, 2 :: nat]"
    using ex_oneIteration by (simp add: ex_out1_def)
  have h2: "dentist ex_env ex_args = Inr ?r" by (rule ex_dentist)
  have h3: "dentist ex_env ex_args = Inr ?r
      \<and> dentist_init ex_env ex_args = Inr (ex_s0, [0, 0, 0, 0, 0])
      \<and> dentist_rounds ex_env ex_args [0, 0, 0, 0, 0] 0 (nat (nIter ex_args)) ex_s0 = Inr [ex_s0]
      \<and> 3 < markerSize ex_args \<and> (\<forall>x\<in>set [ex_s0]. 3 \<notin> set (idx2 x))"
    using ex_dentist ex_init ex_rounds by (simp add: ex_args_def ex_s0_def)
  note a = t [THEN conjunct1, THEN mp, OF h1]
  note b = t [THEN conjunct2, THEN conjunct1, THEN mp, OF h2]
  note c = t [THEN conjunct2, THEN conjunct2, THEN mp, OF h3]
  show ?thesis using a b c by simp
qed

subsection \<open>The group-0 threshold\<close>

lemma sort_upt_real: "sort (map real [a..<b]) = map real [a..<b]"
  by (intro sorted_sort_id) (simp add: sorted_map sorted_wrt_iff_nth_less)

lemma ex50_quantile: "getQuantile (map real [1..<51]) (fl64 (995 / 1000)) = Inr 50"
proof -
  have "length (map real [1..<51]) = 50" by simp
  moreover have "map real [1..<51] ! 49 = 50" by (simp only: nth_map length_upt nth_upt)
  ultimately show ?thesis
    unfolding getQuantile_def Let_def sort_upt_real by (simp only: quantile_pos_50) simp
qed

lemma ex50_labelled_none:
  "getQuantile2 (map real [1..<51]) (replicate 50 0) (fl64 (995 / 1000)) = Inr 0"
proof -
  have "filter (\<lambda>i. replicate 50 (0::nat) ! i = 1) [0..<50] = []"
    by (simp add: filter_empty_conv)
  then show ?thesis by (simp add: getQuantile2_def)
qed

lemma ex50_labelled_all:
  "getQuantile2 (map real [1..<51]) (replicate 50 1) (fl64 (995 / 1000)) = Inr 50"
proof -
  have f: "filter (\<lambda>i. replicate 50 (1::nat) ! i = 1) [0..<50] = [0..<50]"
    by (simp add: filter_id_conv)
  have l: "length (map real [1..<51]) = 50" by simp
  have m: "map (\<lambda>i. map real [1..<51] ! i) [0..<50] = map real [1..<51]"
    using map_nth [of "map real [1..<51]"] by (simp only: l)
  show ?thesis
    unfolding getQuantile2_def l f m Let_def using ex50_quantile by simp
qed

text \<open>
  C7. Line 234 hands \<open>getQuantile2\<close> the labels \<open>!grouping_tmp\<close>, and C++ has no operator
  \<open>!\<close> for a \<open>std::vector<uint>\<close>: which markers enter the group-0 threshold is left to
  an operator that the source does not have. On fifty targets of label \<open>0\<close> with the
  statistics \<open>1, ..., 50\<close>, the elementwise complement gives the threshold of the claim,
  the 99.5th percentile \<open>50\<close> of these fifty; the labels passed on as they are give \<open>0\<close>.
\<close>

theorem group0_threshold_operator:
  "round_thresholds complement_labels (map real [1..<51]) (replicate 50 0) = Inr (50, 0, 50)
   \<and> round_thresholds (\<lambda>grouping. grouping) (map real [1..<51]) (replicate 50 0)
       = Inr (50, 0, 0)"
proof -
  have c: "complement_labels (replicate 50 0) = replicate 50 1"
    by (simp add: complement_labels_def)
  show ?thesis
    unfolding round_thresholds_def c ex50_quantile ex50_labelled_none ex50_labelled_all
    by simp
qed

subsection \<open>The rank stop\<close>

lemma round_aborts:
  assumes "oneIteration (eig_sym E) (LDmat A) (idx st) (idx2 st) (zScore A) (res st)
      (nSample A) (propSVD A) = Inl e"
  shows "dentist_round E A g t st = Inl e"
  using assms by (simp add: dentist_round_def)

lemma loop_append:
  "dentist_loop E A g t (k + n) s =
     (case dentist_loop E A g t k s of
        Inl e \<Rightarrow> Inl e
      | Inr s' \<Rightarrow> dentist_loop E A g (t + k) n s')"
proof (induction k arbitrary: t s)
  case 0
  then show ?case by simp
next
  case (Suc k)
  show ?case
  proof (cases "dentist_round E A g t s")
    case (Inl e)
    then show ?thesis by simp
  next
    case (Inr s1)
    then show ?thesis using Suc [of "Suc t" s1] by (simp split: sum.splits)
  qed
qed

text \<open>A round that fails after \<open>k\<close> rounds have gone through is the result of the run.\<close>

lemma dentist_aborts:
  assumes "dentist_init E A = Inr (s0, g)" "k < nat (nIter A)"
    and "dentist_loop E A g 0 k s0 = Inr st" "dentist_round E A g k st = Inl e"
  shows "dentist E A = Inl e"
proof -
  define m where "m = nat (nIter A) - Suc k"
  have m: "nat (nIter A) = k + Suc m" using assms(2) by (simp add: m_def)
  have "dentist_loop E A g 0 (k + Suc m) s0 = dentist_loop E A g (0 + k) (Suc m) st"
    by (simp only: loop_append [of E A g 0 k "Suc m" s0] assms(3) sum.case)
  also have "\<dots> = Inl e" using assms(4) by simp
  finally have "dentist_loop E A g 0 (nat (nIter A)) s0 = Inl e" by (simp only: m)
  then show ?thesis by (simp add: dentist_def assms(1))
qed

text \<open>
  The rank depends on the reference markers only: the second \<open>oneIteration\<close> of a round,
  which has the reference markers of the first, does not stop on the rank when the first
  has gone through.
\<close>

lemma same_reference_no_rank_stop:
  assumes "oneIteration eig L rs ts zs s nS p = Inr s'"
  shows "oneIteration eig L rs ts2 zs s2 nS p \<noteq> Inl Rank_stop"
proof -
  from assms obtain imp r where "impute eig L rs ts zs nS p = Inr (imp, r)"
    by (rule oneIteration_Inr)
  then obtain zse VV where g: "gather_vec zs rs = Inr zse" "gather L rs rs = Inr VV"
    and k: "2 \<le> truncation_rank (length rs) nS p (fst (eig VV)) (snd (eig VV))"
    by (elim impute_Inr) auto
  show ?thesis
  proof (cases "gather L ts2 rs")
    case (Inl e)
    then have "oneIteration eig L rs ts2 zs s2 nS p = Inl e"
      by (simp add: oneIteration_def impute_def)
    moreover have "e \<noteq> Rank_stop" using Inl by (auto simp: gather_def split: if_splits)
    ultimately show ?thesis by simp
  next
    case (Inr LD_it)
    then show ?thesis
      using oneIteration_rank_iff [OF Inr g, of eig s2 nS p] k by simp
  qed
qed

lemma ex4_oneIteration:
  "oneIteration (eig_sym ex_env) (LDmat ex_args4) (idx ex_s4) (idx2 ex_s4) (zScore ex_args4)
     (res ex_s4) (nSample ex_args4) (propSVD ex_args4) = Inl Rank_stop"
  by (simp add: ex_env_def ex_args_def ex_args4_def ex_s4_def oneIteration_def impute_eval)

lemma ex_exact_product:
  "nat \<lfloor>real (min (10::nat) 100) * (11744051 / 16777216)\<rfloor> = 6"
  "nat \<lceil>real (min (10::nat) 100) * (11744051 / 16777216)\<rceil> = 7"
  by simp_all

text \<open>
  C2. The rank is \<open>floor(fl(min(|reference|, nSample) * propSVD))\<close>, where \<open>fl\<close> rounds the
  product to single precision as the \<open>float\<close> multiplication of line 91 does: it is the
  floor of the exact product, or one more when the product rounds up to an integer (for a
  proportion in \<open>[0, 1]\<close> and fewer than \<open>2 ^ 24\<close> reference markers or samples). It is
  capped at the number of eigenvalues of the reference submatrix that are not below
  \<open>0.0001\<close> (the solver returning one eigenvalue per row). Once the gather loops have gone
  through, \<open>oneIteration\<close> stops with the rank error if and only if the capped rank is at
  most \<open>1\<close>; when it completes, the rank is at least \<open>2\<close>. The rank error of the first
  \<open>oneIteration\<close> of any round that the loop reaches is the result of that round and of
  \<open>dentist\<close>, and the second \<open>oneIteration\<close> of a round, which has the same reference
  markers, does not stop on the rank when the first has completed.
\<close>

theorem truncation_rank_stop:
  "(0 \<le> p \<and> p \<le> 1 \<and> n < 2 ^ 32 \<and> min n nS < 2 ^ 24 \<longrightarrow>
      initial_rank n nS p = nat \<lfloor>fl32 (real (min n nS) * p)\<rfloor>
      \<and> nat \<lfloor>real (min n nS) * p\<rfloor> \<le> initial_rank n nS p
      \<and> initial_rank n nS p \<le> nat \<lceil>real (min n nS) * p\<rceil>)
   \<and> (length eigval = n_rows eigvec \<and> n_rows eigvec < 2 ^ 31 \<longrightarrow>
      truncation_rank n nS p eigval eigvec
        = min (initial_rank n nS p) (length (filter (\<lambda>x. \<not> x < 1 / 10000) eigval)))
   \<and> (gather L ts rs = Inr LD_it \<and> gather_vec zs rs = Inr zse \<and> gather L rs rs = Inr VV \<longrightarrow>
      (oneIteration eig L rs ts zs s nS p = Inl Rank_stop
         \<longleftrightarrow> truncation_rank (length rs) nS p (fst (eig VV)) (snd (eig VV)) \<le> 1))
   \<and> (oneIteration eig L rs ts zs s nS p = Inr s' \<longrightarrow>
      (\<exists>V. gather L rs rs = Inr V
         \<and> 2 \<le> truncation_rank (length rs) nS p (fst (eig V)) (snd (eig V)))
      \<and> oneIteration eig L rs ts2 zs s2 nS p \<noteq> Inl Rank_stop)
   \<and> (dentist_init E A = Inr (s0, g) \<and> k < nat (nIter A)
       \<and> dentist_loop E A g 0 k s0 = Inr st
       \<and> oneIteration (eig_sym E) (LDmat A) (idx st) (idx2 st) (zScore A) (res st)
            (nSample A) (propSVD A) = Inl Rank_stop \<longrightarrow>
      dentist_round E A g k st = Inl Rank_stop \<and> dentist E A = Inl Rank_stop)"
proof -
  have p1: "0 \<le> p \<and> p \<le> 1 \<and> n < 2 ^ 32 \<and> min n nS < 2 ^ 24 \<longrightarrow>
      initial_rank n nS p = nat \<lfloor>fl32 (real (min n nS) * p)\<rfloor>
      \<and> nat \<lfloor>real (min n nS) * p\<rfloor> \<le> initial_rank n nS p
      \<and> initial_rank n nS p \<le> nat \<lceil>real (min n nS) * p\<rceil>"
    using initial_rank_rounded [of p n nS] by blast
  have p2: "length eigval = n_rows eigvec \<and> n_rows eigvec < 2 ^ 31 \<longrightarrow>
      truncation_rank n nS p eigval eigvec
        = min (initial_rank n nS p) (length (filter (\<lambda>x. \<not> x < 1 / 10000) eigval))"
    unfolding truncation_rank_def using effective_rank_count [of eigval eigvec] by presburger
  have p3: "gather L ts rs = Inr LD_it \<and> gather_vec zs rs = Inr zse \<and> gather L rs rs = Inr VV \<longrightarrow>
      (oneIteration eig L rs ts zs s nS p = Inl Rank_stop
         \<longleftrightarrow> truncation_rank (length rs) nS p (fst (eig VV)) (snd (eig VV)) \<le> 1)"
    using oneIteration_rank_iff [of L ts rs LD_it zs zse VV eig s nS p] by blast
  have p4: "oneIteration eig L rs ts zs s nS p = Inr s' \<longrightarrow>
      (\<exists>V. gather L rs rs = Inr V
         \<and> 2 \<le> truncation_rank (length rs) nS p (fst (eig V)) (snd (eig V)))
      \<and> oneIteration eig L rs ts2 zs s2 nS p \<noteq> Inl Rank_stop"
    using oneIteration_rank_ge2 [of eig L rs ts zs s nS p s']
      same_reference_no_rank_stop [of eig L rs ts zs s nS p s' ts2 s2] by blast
  have p5: "dentist_init E A = Inr (s0, g) \<and> k < nat (nIter A)
       \<and> dentist_loop E A g 0 k s0 = Inr st
       \<and> oneIteration (eig_sym E) (LDmat A) (idx st) (idx2 st) (zScore A) (res st)
            (nSample A) (propSVD A) = Inl Rank_stop \<longrightarrow>
      dentist_round E A g k st = Inl Rank_stop \<and> dentist E A = Inl Rank_stop"
  proof
    assume h: "dentist_init E A = Inr (s0, g) \<and> k < nat (nIter A)
       \<and> dentist_loop E A g 0 k s0 = Inr st
       \<and> oneIteration (eig_sym E) (LDmat A) (idx st) (idx2 st) (zScore A) (res st)
            (nSample A) (propSVD A) = Inl Rank_stop"
    then have r: "dentist_round E A g k st = Inl Rank_stop" by (intro round_aborts) simp
    then have "dentist E A = Inl Rank_stop" using h by (intro dentist_aborts [of E A s0 g k st]) simp_all
    then show "dentist_round E A g k st = Inl Rank_stop \<and> dentist E A = Inl Rank_stop"
      using r by simp
  qed
  show ?thesis by (intro conjI p1 p2 p3 p4 p5)
qed

theorem truncation_rank_stop_witness:
  "initial_rank 10 100 (11744051 / 16777216) = 7
   \<and> nat \<lfloor>real (min (10::nat) 100) * (11744051 / 16777216)\<rfloor> \<le> initial_rank 10 100 (11744051 / 16777216)
   \<and> initial_rank 10 100 (11744051 / 16777216) \<le> nat \<lceil>real (min (10::nat) 100) * (11744051 / 16777216)\<rceil>
   \<and> truncation_rank 10 100 (11744051 / 16777216) [1, 1]
        \<lparr>n_rows = 2, n_cols = 2, elem = (\<lambda>i k. if i = k then 1 else 0)\<rparr>
       = min (initial_rank 10 100 (11744051 / 16777216)) 2
   \<and> oneIteration ex_eig ex_LD [3, 4] [0, 1, 2] [5 / 2, 0, 0, 5, 0] ex_out0 100 1 \<noteq> Inl Rank_stop
   \<and> (\<exists>V. gather ex_LD [3, 4] [3, 4] = Inr V
        \<and> 2 \<le> truncation_rank (length [3, 4 :: nat]) 100 1 (fst (ex_eig V)) (snd (ex_eig V)))
   \<and> oneIteration ex_eig ex_LD [3, 4] [1, 2] [5 / 2, 0, 0, 5, 0] ex_out1 100 1 \<noteq> Inl Rank_stop
   \<and> dentist_round ex_env ex_args4 [0, 0, 0, 0] 0 ex_s4 = Inl Rank_stop
   \<and> dentist ex_env ex_args4 = Inl Rank_stop"
proof -
  let ?p = "11744051 / 16777216 :: real"
  let ?I = "\<lparr>n_rows = 2, n_cols = 2, elem = (\<lambda>i k. if i = k then (1::real) else 0)\<rparr>"
  let ?V = "\<lparr>n_rows = 2, n_cols = 2, elem = (\<lambda>i k. elem ex_LD ([3, 4] ! i) ([3, 4] ! k))\<rparr>"
  note t = truncation_rank_stop [of ?p 10 100 "[1, 1]" ?I]
  note u = truncation_rank_stop [of 1 2 100 "[1, 1]" ?I ex_LD "[0, 1, 2]" "[3, 4]"
      "\<lparr>n_rows = 3, n_cols = 2, elem = (\<lambda>i k. elem ex_LD ([0, 1, 2] ! i) ([3, 4] ! k))\<rparr>"
      "[5 / 2, 0, 0, 5, 0]" "[5, 0]" ?V ex_eig ex_out0 ex_out1 "[1, 2]" ex_out1
      ex_env ex_args4 ex_s4 "[0, 0, 0, 0]" 0 ex_s4]
  have h1: "(0::real) \<le> ?p \<and> ?p \<le> 1 \<and> (10::nat) < 2 ^ 32 \<and> min (10::nat) 100 < 2 ^ 24"
    by simp
  have h2: "length [1, 1 :: real] = n_rows ?I \<and> n_rows ?I < 2 ^ 31" by simp
  have h3: "gather ex_LD [0, 1, 2] [3, 4]
        = Inr \<lparr>n_rows = 3, n_cols = 2, elem = (\<lambda>i k. elem ex_LD ([0, 1, 2] ! i) ([3, 4] ! k))\<rparr>
      \<and> gather_vec [5 / 2, 0, 0, 5, 0] [3, 4] = Inr [5, 0]
      \<and> gather ex_LD [3, 4] [3, 4] = Inr ?V"
    using ex_gather_tgt ex_gather_ref ex_gather_vec by simp
  have h4: "oneIteration ex_eig ex_LD [3, 4] [0, 1, 2] [5 / 2, 0, 0, 5, 0] ex_out0 100 1
      = Inr ex_out1"
    using ex_oneIteration by (simp add: ex_out1_def)
  have h5: "dentist_init ex_env ex_args4 = Inr (ex_s4, [0, 0, 0, 0]) \<and> 0 < nat (nIter ex_args4)
      \<and> dentist_loop ex_env ex_args4 [0, 0, 0, 0] 0 0 ex_s4 = Inr ex_s4
      \<and> oneIteration (eig_sym ex_env) (LDmat ex_args4) (idx ex_s4) (idx2 ex_s4)
          (zScore ex_args4) (res ex_s4) (nSample ex_args4) (propSVD ex_args4) = Inl Rank_stop"
    using ex4_init ex4_oneIteration by (simp add: ex_args4_def ex_args_def)
  note a = t [THEN conjunct1, THEN mp, OF h1]
  have a1: "initial_rank 10 100 ?p = 7"
    using a [THEN conjunct1] fl32_seven by simp
  have b: "truncation_rank 10 100 ?p [1, 1] ?I
       = min (initial_rank 10 100 ?p) (length (filter (\<lambda>x. \<not> x < 1 / 10000) [1, 1 :: real]))"
    by (rule t [THEN conjunct2, THEN conjunct1, THEN mp, OF h2])
  have b': "truncation_rank 10 100 ?p [1, 1] ?I = min (initial_rank 10 100 ?p) 2"
    using b by simp
  have c: "(oneIteration ex_eig ex_LD [3, 4] [0, 1, 2] [5 / 2, 0, 0, 5, 0] ex_out0 100 1
        = Inl Rank_stop)
      \<longleftrightarrow> truncation_rank (length [3, 4 :: nat]) 100 1 (fst (ex_eig ?V)) (snd (ex_eig ?V)) \<le> 1"
    by (rule u [THEN conjunct2, THEN conjunct2, THEN conjunct1, THEN mp, OF h3])
  have c': "oneIteration ex_eig ex_LD [3, 4] [0, 1, 2] [5 / 2, 0, 0, 5, 0] ex_out0 100 1
        \<noteq> Inl Rank_stop"
    using c ex_rank by simp
  note d = u [THEN conjunct2, THEN conjunct2, THEN conjunct2, THEN conjunct1, THEN mp, OF h4]
  note e = u [THEN conjunct2, THEN conjunct2, THEN conjunct2, THEN conjunct2, THEN mp, OF h5]
  show ?thesis
    by (intro conjI a1 a [THEN conjunct2, THEN conjunct1] a [THEN conjunct2, THEN conjunct2]
        b' c' d [THEN conjunct1] d [THEN conjunct2] e [THEN conjunct1] e [THEN conjunct2])
qed

theorem truncation_rank_exact_counterexample:
  "initial_rank 10 100 (11744051 / 16777216) = 7
   \<and> nat \<lfloor>real (min (10::nat) 100) * (11744051 / 16777216)\<rfloor> = 6"
  using ex_initial_rank ex_exact_product(1) by simp

subsection \<open>The stop on R squared\<close>

lemma ex_full_impute:
  "impute ex_eig ex_LD_full [3, 4] [0, 1, 2] [5 / 2, 0, 0, 5, 0] 100 1
     = Inr ([5, 0, 0], [1, 0, 0])"
  by (simp add: impute_eval ex_LD_full_def)

lemma ex_full_oneIteration:
  "oneIteration ex_eig ex_LD_full [3, 4] [0, 1, 2] [5 / 2, 0, 0, 5, 0] ex_out0 100 1
     = Inl Terminated"
  unfolding oneIteration_def ex_full_impute
  by (simp add: ex_out0_def replicate_5)

lemma dentist_init_LDmat: "dentist_init E (A\<lparr>LDmat := L\<rparr>) = dentist_init E A"
  by (simp add: dentist_init_def split: sum.splits)

lemma ex_full_init:
  "dentist_init ex_env (ex_args\<lparr>LDmat := ex_LD_full\<rparr>) = Inr (ex_s0, [0, 0, 0, 0, 0])"
  unfolding dentist_init_LDmat by (rule ex_init)

lemma ex_full_round_call:
  "oneIteration (eig_sym ex_env) (LDmat (ex_args\<lparr>LDmat := ex_LD_full\<rparr>)) (idx ex_s0)
     (idx2 ex_s0) (zScore (ex_args\<lparr>LDmat := ex_LD_full\<rparr>)) (res ex_s0)
     (nSample (ex_args\<lparr>LDmat := ex_LD_full\<rparr>)) (propSVD (ex_args\<lparr>LDmat := ex_LD_full\<rparr>))
   = Inl Terminated"
  using ex_full_oneIteration by (simp add: ex_env_def ex_args_def ex_s0_def)

text \<open>
  C3. With markers \<open>0\<close> and \<open>3\<close> perfectly correlated, marker \<open>3\<close> a reference and marker
  \<open>0\<close> a target, the R squared computed for marker \<open>0\<close> is \<open>1\<close>. The test of line 143 holds
  and line 144 throws inside the parallel region: the process is ended, which is the
  outcome of \<open>oneIteration\<close> and of \<open>dentist\<close>; no error is raised to the caller.
\<close>

theorem rsq_stop_terminates:
  "impute ex_eig ex_LD_full [3, 4] [0, 1, 2] [5 / 2, 0, 0, 5, 0] 100 1
     = Inr ([5, 0, 0], [1, 0, 0])
   \<and> oneIteration ex_eig ex_LD_full [3, 4] [0, 1, 2] [5 / 2, 0, 0, 5, 0] ex_out0 100 1
       = Inl Terminated
   \<and> dentist ex_env (ex_args\<lparr>LDmat := ex_LD_full\<rparr>) = Inl Terminated"
proof -
  have "0 < nat (nIter (ex_args\<lparr>LDmat := ex_LD_full\<rparr>))" by (simp add: ex_args_def)
  moreover have "dentist_loop ex_env (ex_args\<lparr>LDmat := ex_LD_full\<rparr>) [0, 0, 0, 0, 0] 0 0 ex_s0
      = Inr ex_s0" by simp
  ultimately have "dentist ex_env (ex_args\<lparr>LDmat := ex_LD_full\<rparr>) = Inl Terminated"
    using ex_full_init round_aborts [OF ex_full_round_call]
    by (intro dentist_aborts [of _ _ ex_s0 "[0, 0, 0, 0, 0]" 0 ex_s0]) simp_all
  then show ?thesis using ex_full_impute ex_full_oneIteration by simp
qed

end
